theory Spec2Isabelle
  imports Main "HOL-Library.Word" "HOL-Library.AList"
begin

section \<open>Chunk ids\<close>

text \<open>
  Both the viewer (\<open>createSpatialBatches\<close>) and the \<open>ImageChunk\<close> constructor build a chunk
  id with the template literal \<^verbatim>\<open>`${x}_${y}`\<close>. Grid indices are non-negative integers, which
  JavaScript renders in decimal without leading zeros (below \<open>10^21\<close>, far beyond any grid
  that fits in memory); they are modelled as \<open>nat\<close>.
\<close>

definition digit_char :: "nat \<Rightarrow> char" where
  "digit_char d = ''0123456789'' ! d"

fun string_of_nat :: "nat \<Rightarrow> string" where
  "string_of_nat n =
     (if n < 10 then [digit_char n]
      else string_of_nat (n div 10) @ [digit_char (n mod 10)])"

definition chunkId_of :: "nat \<Rightarrow> nat \<Rightarrow> string" where
  "chunkId_of x y = string_of_nat x @ ''_'' @ string_of_nat y"

text \<open>Reading a decimal numeral back: only used to show that ids determine their indices.\<close>

definition digit_val :: "char \<Rightarrow> nat" where
  "digit_val c = of_char c - 48"

definition nat_of_string :: "string \<Rightarrow> nat" where
  "nat_of_string cs = foldl (\<lambda>a c. 10 * a + digit_val c) 0 cs"

section \<open>The spatial scheduler\<close>

text \<open>
  \<open>createSpatialBatches\<close> runs the same pair of nested loops four times, with different start
  values. \<open>batch_row\<close> is the inner loop \<^verbatim>\<open>for (let x = x0; x < gridWidth; x += 2)\<close> at a fixed
  \<open>y\<close>, \<open>batch_rows\<close> the outer loop \<^verbatim>\<open>for (let y = y0; y < gridHeight; y += 2)\<close>; both push
  onto the batch built so far. The set \<open>visited\<close> of the source is written and never read,
  and is left out.
\<close>

function batch_row :: "nat \<Rightarrow> nat \<Rightarrow> nat \<Rightarrow> string list \<Rightarrow> string list" where
  "batch_row gridWidth y x batch =
     (if x < gridWidth then batch_row gridWidth y (x + 2) (batch @ [chunkId_of x y]) else batch)"
  by pat_completeness auto
termination
  by (relation "measure (\<lambda>(gridWidth, y, x, batch). gridWidth - x)") auto

function batch_rows :: "nat \<Rightarrow> nat \<Rightarrow> nat \<Rightarrow> nat \<Rightarrow> string list \<Rightarrow> string list" where
  "batch_rows gridWidth gridHeight x0 y batch =
     (if y < gridHeight
      then batch_rows gridWidth gridHeight x0 (y + 2) (batch_row gridWidth y x0 batch)
      else batch)"
  by pat_completeness auto
termination
  by (relation "measure (\<lambda>(gridWidth, gridHeight, x0, y, batch). gridHeight - y)") auto

text \<open>The four local arrays \<open>batch1\<close> .. \<open>batch4\<close> of the source, before the emptiness test.\<close>

definition batch1 :: "nat \<Rightarrow> nat \<Rightarrow> string list" where
  "batch1 gridWidth gridHeight = batch_rows gridWidth gridHeight 1 1 []"

definition batch2 :: "nat \<Rightarrow> nat \<Rightarrow> string list" where
  "batch2 gridWidth gridHeight = batch_rows gridWidth gridHeight 0 0 []"

definition batch3 :: "nat \<Rightarrow> nat \<Rightarrow> string list" where
  "batch3 gridWidth gridHeight = batch_rows gridWidth gridHeight 1 0 []"

definition batch4 :: "nat \<Rightarrow> nat \<Rightarrow> string list" where
  "batch4 gridWidth gridHeight = batch_rows gridWidth gridHeight 0 1 []"

text \<open>\<^verbatim>\<open>if (batch.length > 0) batches.push(batch)\<close>\<close>

definition push_nonempty :: "string list \<Rightarrow> string list list \<Rightarrow> string list list" where
  "push_nonempty batch batches = (if length batch > 0 then batches @ [batch] else batches)"

definition createSpatialBatches :: "nat \<Rightarrow> nat \<Rightarrow> string list list" where
  "createSpatialBatches gridWidth gridHeight =
     push_nonempty (batch4 gridWidth gridHeight)
       (push_nonempty (batch3 gridWidth gridHeight)
         (push_nonempty (batch2 gridWidth gridHeight)
           (push_nonempty (batch1 gridWidth gridHeight) [])))"

text \<open>
  The loops step by two from their start value. \<open>steps2 a n\<close> lists the values the loop
  variable takes, \<open>a, a + 2, \<dots>\<close> below \<open>n\<close>; it is used to describe what the loops
  computed.
\<close>

definition steps2 :: "nat \<Rightarrow> nat \<Rightarrow> nat list" where
  "steps2 a n = map (\<lambda>k. a + 2 * k) [0..<(n + 1 - a) div 2]"

definition grid_ids :: "nat \<Rightarrow> nat \<Rightarrow> string set" where
  "grid_ids gx gy = {chunkId_of x y | x y. x < gx \<and> y < gy}"

section \<open>Chunk state\<close>

datatype ChunkStatus = UNREQUESTED | REQUESTING | IN_CPU | IN_GPU | ERROR

type_synonym byte = "8 word"

text \<open>A \<open>WebGLTexture\<close> handle is an opaque object; handles are numbered in creation order.\<close>

type_synonym WebGLTexture = nat

text \<open>
  The fields \<open>x\<close>, \<open>y\<close> and \<open>id\<close> of the source are named \<open>x_pos\<close>, \<open>y_pos\<close> and
  \<open>chunk_id\<close> here. \<open>ImageChunk\<close> carries every field of \<open>ChunkInfo\<close>, copied by its
  constructor, and five more.
\<close>

record ChunkInfo =
  x_pos :: nat
  y_pos :: nat
  width :: nat
  height :: nat
  chunk_x :: nat
  chunk_y :: nat

record ImageChunk = ChunkInfo +
  chunk_id :: string
  status :: ChunkStatus
  data :: "byte list option"
  texture :: "WebGLTexture option"
  lastAccessed :: nat

text \<open>The constructor; \<open>now\<close> is the value of \<^verbatim>\<open>Date.now()\<close>.\<close>

definition new_ImageChunk :: "nat \<Rightarrow> ChunkInfo \<Rightarrow> ImageChunk" where
  "new_ImageChunk now chunkInfo =
     \<lparr> x_pos = x_pos chunkInfo, y_pos = y_pos chunkInfo,
       width = width chunkInfo, height = height chunkInfo,
       chunk_x = chunk_x chunkInfo, chunk_y = chunk_y chunkInfo,
       chunk_id = chunkId_of (chunk_x chunkInfo) (chunk_y chunkInfo),
       status = UNREQUESTED, data = None, texture = None, lastAccessed = now \<rparr>"

definition updateStatus :: "nat \<Rightarrow> ChunkStatus \<Rightarrow> ImageChunk \<Rightarrow> ImageChunk" where
  "updateStatus now st chunk =
     (let chunk = chunk\<lparr>status := st\<rparr>
      in if st = IN_CPU \<or> st = IN_GPU then chunk\<lparr>lastAccessed := now\<rparr> else chunk)"

definition setData :: "nat \<Rightarrow> byte list \<Rightarrow> ImageChunk \<Rightarrow> ImageChunk" where
  "setData now d chunk = updateStatus now IN_CPU (chunk\<lparr>data := Some d\<rparr>)"

definition setTexture :: "nat \<Rightarrow> WebGLTexture \<Rightarrow> ImageChunk \<Rightarrow> ImageChunk" where
  "setTexture now t chunk = updateStatus now IN_GPU (chunk\<lparr>texture := Some t\<rparr>)"

text \<open>
  \<open>ImageChunk.cleanup(gl)\<close>: the second component lists the handles passed to
  \<^verbatim>\<open>gl.deleteTexture\<close>.
\<close>

definition ImageChunk_cleanup :: "ImageChunk \<Rightarrow> ImageChunk \<times> WebGLTexture list" where
  "ImageChunk_cleanup chunk =
     (chunk\<lparr>texture := None, data := None, status := UNREQUESTED\<rparr>,
      case texture chunk of None \<Rightarrow> [] | Some t \<Rightarrow> [t])"

section \<open>Parsing a chunk blob\<close>

text \<open>What the \<^verbatim>\<open>try\<close> block of \<open>processQueue\<close> can throw.\<close>

datatype error =
    InvokeFailed
  | DataTypeError
  | DataTooShort nat
  | RangeError
  | SizeMismatch nat nat

text \<open>
  \<^verbatim>\<open>DataView.getUint32(byteOffset, false)\<close>: four bytes, most significant first; a read past
  the end of the view throws.
\<close>

definition be_u32 :: "byte list \<Rightarrow> nat \<Rightarrow> nat" where
  "be_u32 bytes byteOffset =
     unat (bytes ! byteOffset) * 2 ^ 24
   + unat (bytes ! (byteOffset + 1)) * 2 ^ 16
   + unat (bytes ! (byteOffset + 2)) * 2 ^ 8
   + unat (bytes ! (byteOffset + 3))"

definition getUint32 :: "byte list \<Rightarrow> nat \<Rightarrow> error + nat" where
  "getUint32 bytes byteOffset =
     (if byteOffset + 4 > length bytes then Inl RangeError
      else Inr (be_u32 bytes byteOffset))"

text \<open>
  The part of \<open>processQueue\<close> between the comment \<^verbatim>\<open>// parse binary data\<close> and the size
  check: it either throws or yields \<open>width\<close>, \<open>height\<close> and \<open>pixels\<close>.

  \<open>width * height * 4\<close> is a product of JavaScript numbers. Both factors are below
  \<open>2^32\<close>; a product up to \<open>2^53\<close> is exact and a larger one rounds to at least \<open>2^53\<close>,
  which no array length reaches, so the comparison with \<open>pixels.length\<close> has the outcome
  of the comparison of the exact integers modelled here.
\<close>

definition parseChunkData :: "byte list \<Rightarrow> error + (nat \<times> nat \<times> byte list)" where
  "parseChunkData chunkData =
     (if length chunkData < 8 then Inl (DataTooShort (length chunkData))
      else case getUint32 chunkData 0 of
        Inl e \<Rightarrow> Inl e
      | Inr w \<Rightarrow>
         (case getUint32 chunkData 4 of
            Inl e \<Rightarrow> Inl e
          | Inr h \<Rightarrow>
             (let pixels = drop 8 chunkData;
                  expectedPixelsSize = w * h * 4
              in if length pixels \<noteq> expectedPixelsSize
                 then Inl (SizeMismatch expectedPixelsSize (length pixels))
                 else Inr (w, h, pixels))))"

section \<open>The chunk manager\<close>

text \<open>
  \<open>ImageChunk\<close> objects are shared: the map \<open>chunks\<close> holds references to them, and so does
  every activation of \<open>processQueue\<close> that is suspended at an \<^verbatim>\<open>await\<close> (its local
  \<open>chunk\<close>). Two activations may hold the same object, and an object replaced in the map
  is still written by the activation that holds it. The objects therefore live in a store,
  \<open>heap\<close>, and a reference is an index into it.

  The record holds the fields of the class that the scheduler reads or writes, followed
  by its surroundings: the object store, the suspended activations with the
  \<^verbatim>\<open>await\<close> each one is waiting at, the clock read by \<^verbatim>\<open>Date.now()\<close>, and the GL context's
  side of the story (how many textures were created, which chunk objects had pixels
  uploaded into which texture, which textures were deleted). \<open>gl\<close> and \<open>onChunkReady\<close>
  record whether the optional field is set. \<open>metadata\<close> and \<open>currentFilePath\<close> only
  parametrise the request sent to the backend, whose reply is an input here.
\<close>

type_synonym ref = nat

datatype await_point = AwaitInvoke | AwaitUpload

record ChunkManager =
  chunks :: "(string \<times> ref) list"
  gl :: bool
  requestQueue :: "string list"
  activeRequests :: int
  onChunkReady :: bool
  heap :: "ImageChunk list"
  suspended :: "(ref \<times> await_point) list"
  clock :: nat
  textures_created :: nat
  uploads :: "(ref \<times> WebGLTexture) list"
  deleted :: "WebGLTexture list"

definition maxConcurrentRequests :: int where
  "maxConcurrentRequests = 3"

definition new_ChunkManager :: ChunkManager where
  "new_ChunkManager =
     \<lparr> chunks = [], gl = False, requestQueue = [], activeRequests = 0, onChunkReady = False,
       heap = [], suspended = [], clock = 0, textures_created = 0, uploads = [],
       deleted = [] \<rparr>"

definition update_chunk :: "ref \<Rightarrow> (ImageChunk \<Rightarrow> ImageChunk) \<Rightarrow> ChunkManager \<Rightarrow> ChunkManager" where
  "update_chunk r f s = s\<lparr>heap := (heap s)[r := f (heap s ! r)]\<rparr>"

text \<open>
  The loop \<^verbatim>\<open>metadata.chunks.forEach(...)\<close> shared by \<open>initializeChunksFromMetadata\<close> and
  \<open>initializeChunks\<close>: a new object per \<open>ChunkInfo\<close>, stored under its id. \<open>Map.set\<close>
  replaces the value of a key that is present and appends a new key otherwise.
\<close>

fun initializeChunks :: "ChunkInfo list \<Rightarrow> ChunkManager \<Rightarrow> ChunkManager" where
  "initializeChunks [] s = s"
| "initializeChunks (chunkInfo # rest) s =
     (let chunk = new_ImageChunk (clock s) chunkInfo;
          r = length (heap s)
      in initializeChunks rest
           (s\<lparr>heap := heap s @ [chunk],
              chunks := AList.update (chunk_id chunk) r (chunks s)\<rparr>))"

text \<open>
  \<open>processQueue\<close> up to its first \<^verbatim>\<open>await\<close>: this much runs synchronously inside the caller.
  \<^verbatim>\<open>if (!chunkId) return\<close> also returns on the empty string.
\<close>

definition processQueue :: "ChunkManager \<Rightarrow> ChunkManager" where
  "processQueue s =
     (if activeRequests s \<ge> maxConcurrentRequests then s
      else case requestQueue s of
        [] \<Rightarrow> s
      | chunkId # rest \<Rightarrow>
         (let s = s\<lparr>requestQueue := rest\<rparr>
          in if chunkId = [] then s
             else let s = s\<lparr>activeRequests := activeRequests s + 1\<rparr>
                  in case map_of (chunks s) chunkId of
                       None \<Rightarrow> s\<lparr>activeRequests := activeRequests s - 1\<rparr>
                     | Some r \<Rightarrow>
                         (update_chunk r (updateStatus (clock s) REQUESTING) s)
                           \<lparr>suspended := suspended s @ [(r, AwaitInvoke)]\<rparr>))"

definition requestChunk :: "string \<Rightarrow> ChunkManager \<Rightarrow> ChunkManager" where
  "requestChunk chunkId s =
     (case map_of (chunks s) chunkId of
        None \<Rightarrow> s
      | Some r \<Rightarrow>
         (let chunk = heap s ! r
          in if status chunk = REQUESTING \<or> status chunk = IN_CPU \<or> status chunk = IN_GPU
             then s
             else processQueue (s\<lparr>requestQueue := requestQueue s @ [chunkId]\<rparr>)))"

text \<open>
  What the GL context and the ready callback do during one call of \<open>uploadChunkToGPU\<close> is
  an input: \<open>createTexture\<close> returns null; or a later GL call throws; or every call
  returns; or every call returns and the callback \<open>onChunkReady\<close>, if one is set, throws.
  The callback is taken not to call back into the manager (the viewer's only repaints).
\<close>

datatype gl_behaviour = CreateTextureNull | GlCallThrows | GlOk | CallbackThrows

definition uploadChunkToGPU :: "gl_behaviour \<Rightarrow> ref \<Rightarrow> ChunkManager \<Rightarrow> ChunkManager" where
  "uploadChunkToGPU g r s =
     (if \<not> gl s \<or> data (heap s ! r) = None then s
      else case g of
        CreateTextureNull \<Rightarrow> update_chunk r (updateStatus (clock s) ERROR) s
      | GlCallThrows \<Rightarrow>
          update_chunk r (updateStatus (clock s) ERROR)
            (s\<lparr>textures_created := textures_created s + 1\<rparr>)
      | _ \<Rightarrow>
         (let t = textures_created s;
              s = s\<lparr>textures_created := t + 1, uploads := uploads s @ [(r, t)]\<rparr>;
              s = update_chunk r (setTexture (clock s) t) s
          in if g = CallbackThrows \<and> onChunkReady s
             then update_chunk r (updateStatus (clock s) ERROR) s
             else s))"

text \<open>
  The reply of the backend to \<^verbatim>\<open>invoke("get_image_chunk", ...)\<close>: the promise is rejected
  (this also stands for a failed \<^verbatim>\<open>import\<close>), or it yields something that is neither an
  \<open>ArrayBuffer\<close> nor a \<open>Uint8Array\<close>, or it yields bytes.
\<close>

datatype invoke_result = Rejected | NotBinary | Bytes "byte list"

text \<open>
  The \<^verbatim>\<open>try\<close> block of \<open>processQueue\<close> from the reply on, for the chunk object \<open>r\<close>. Every
  \<^verbatim>\<open>throw\<close> comes before the first write, so an exception leaves the state as it was;
  \<open>uploadChunkToGPU\<close> catches its own exceptions.
\<close>

definition processQueue_try ::
    "invoke_result \<Rightarrow> gl_behaviour \<Rightarrow> ref \<Rightarrow> ChunkManager \<Rightarrow> error + ChunkManager" where
  "processQueue_try rawData g r s =
     (case rawData of
        Rejected \<Rightarrow> Inl InvokeFailed
      | NotBinary \<Rightarrow> Inl DataTypeError
      | Bytes chunkData \<Rightarrow>
         (case parseChunkData chunkData of
            Inl e \<Rightarrow> Inl e
          | Inr (w, h, pixels) \<Rightarrow>
             (let s = update_chunk r (\<lambda>chunk. chunk\<lparr>width := w, height := h\<rparr>) s;
                  s = update_chunk r (setData (clock s) pixels) s
              in Inr (uploadChunkToGPU g r s))))"

text \<open>The \<^verbatim>\<open>catch\<close> block.\<close>

definition processQueue_catch :: "ref \<Rightarrow> ChunkManager \<Rightarrow> ChunkManager" where
  "processQueue_catch r s = update_chunk r (updateStatus (clock s) ERROR) s"

text \<open>The \<^verbatim>\<open>finally\<close> block; the activation at position \<open>i\<close> ends.\<close>

definition processQueue_finally :: "nat \<Rightarrow> ChunkManager \<Rightarrow> ChunkManager" where
  "processQueue_finally i s =
     processQueue
       (s\<lparr>activeRequests := activeRequests s - 1,
          suspended := take i (suspended s) @ drop (Suc i) (suspended s)\<rparr>)"

text \<open>
  The activation at position \<open>i\<close> resumes with the backend's reply. On an exception the
  \<^verbatim>\<open>catch\<close> and \<^verbatim>\<open>finally\<close> blocks run at once; otherwise it is suspended again at
  \<^verbatim>\<open>await this.uploadChunkToGPU(chunk)\<close>, which yields even though the upload has run.
\<close>

definition invokeSettled ::
    "nat \<Rightarrow> invoke_result \<Rightarrow> gl_behaviour \<Rightarrow> ChunkManager \<Rightarrow> ChunkManager" where
  "invokeSettled i rawData g s =
     (if i < length (suspended s) \<and> snd (suspended s ! i) = AwaitInvoke
      then let r = fst (suspended s ! i)
           in case processQueue_try rawData g r s of
                Inl e \<Rightarrow> processQueue_finally i (processQueue_catch r s)
              | Inr s' \<Rightarrow> s'\<lparr>suspended := (suspended s')[i := (r, AwaitUpload)]\<rparr>
      else s)"

definition uploadAwaited :: "nat \<Rightarrow> ChunkManager \<Rightarrow> ChunkManager" where
  "uploadAwaited i s =
     (if i < length (suspended s) \<and> snd (suspended s ! i) = AwaitUpload
      then processQueue_finally i s
      else s)"

text \<open>\<open>ChunkManager.cleanup\<close>.\<close>

definition cleanup_chunk :: "ref \<Rightarrow> ChunkManager \<Rightarrow> ChunkManager" where
  "cleanup_chunk r s =
     (let (chunk, ts) = ImageChunk_cleanup (heap s ! r)
      in s\<lparr>heap := (heap s)[r := chunk], deleted := deleted s @ ts\<rparr>)"

definition cleanup :: "ChunkManager \<Rightarrow> ChunkManager" where
  "cleanup s =
     (let s = (if gl s then fold cleanup_chunk (map snd (chunks s)) s else s)
      in s\<lparr>chunks := [], requestQueue := [], activeRequests := 0\<rparr>)"

subsection \<open>Runs of the manager\<close>

text \<open>
  Everything runs on one thread, so a run of the manager is a sequence of events, each
  executed to its next \<^verbatim>\<open>await\<close>: a call of a public method, the resumption of a suspended
  activation of \<open>processQueue\<close>, or the passing of time.
\<close>

datatype event =
    SetWebGLContext
  | SetOnChunkReady
  | InitializeChunks "ChunkInfo list"
  | RequestChunk string
  | InvokeSettled nat invoke_result gl_behaviour
  | UploadAwaited nat
  | Cleanup
  | Tick nat

fun step :: "event \<Rightarrow> ChunkManager \<Rightarrow> ChunkManager" where
  "step SetWebGLContext s = s\<lparr>gl := True\<rparr>"
| "step SetOnChunkReady s = s\<lparr>onChunkReady := True\<rparr>"
| "step (InitializeChunks infos) s = initializeChunks infos s"
| "step (RequestChunk chunkId) s = requestChunk chunkId s"
| "step (InvokeSettled i rawData g) s = invokeSettled i rawData g s"
| "step (UploadAwaited i) s = uploadAwaited i s"
| "step Cleanup s = cleanup s"
| "step (Tick n) s = s\<lparr>clock := clock s + n\<rparr>"

definition run :: "event list \<Rightarrow> ChunkManager" where
  "run es = fold step es new_ChunkManager"

text \<open>How often pixels were uploaded for the chunk object \<open>r\<close>.\<close>

definition upload_count :: "ref \<Rightarrow> ChunkManager \<Rightarrow> nat" where
  "upload_count r s = length (filter (\<lambda>u. fst u = r) (uploads s))"

subsection \<open>Invariants\<close>

text \<open>
  What holds of the state after every run. References are in range: those in the map
  (whose keys are never empty), and those held by suspended activations; every queued id
  is a key of the map. A chunk that is \<open>UNREQUESTED\<close> holds neither a texture nor pixels,
  and a chunk that is \<open>IN_GPU\<close> holds a texture.
\<close>

definition refs_ok :: "ChunkManager \<Rightarrow> bool" where
  "refs_ok s \<longleftrightarrow>
     (\<forall>p \<in> set (chunks s). snd p < length (heap s) \<and> fst p \<noteq> [])
   \<and> (\<forall>p \<in> set (suspended s). fst p < length (heap s))
   \<and> set (requestQueue s) \<subseteq> fst ` set (chunks s)"

definition chunk_ok :: "ImageChunk \<Rightarrow> bool" where
  "chunk_ok c \<longleftrightarrow>
     (status c = UNREQUESTED \<longrightarrow> texture c = None \<and> data c = None)
   \<and> (status c = IN_GPU \<longrightarrow> texture c \<noteq> None)"

definition heap_ok :: "ChunkManager \<Rightarrow> bool" where
  "heap_ok s \<longleftrightarrow> (\<forall>c \<in> set (heap s). chunk_ok c)"

definition invariant :: "ChunkManager \<Rightarrow> bool" where
  "invariant s \<longleftrightarrow> refs_ok s \<and> activeRequests s \<le> maxConcurrentRequests \<and> heap_ok s"

subsection \<open>Accounting for uploads\<close>

text \<open>
  Per chunk id \<open>k\<close>: how often pixels were uploaded for an object with that id, how many
  activations for such an object are waiting for the backend's reply, and, with the
  entries of \<open>k\<close> in the queue, the sum of the three. \<open>ids_ok\<close> says that the uploads
  refer to objects of the store and that the map's keys are the ids of the objects they
  refer to.
\<close>

definition uploads_of :: "string \<Rightarrow> ChunkManager \<Rightarrow> nat" where
  "uploads_of k s = length (filter (\<lambda>u. chunk_id (heap s ! fst u) = k) (uploads s))"

definition fetching_of :: "string \<Rightarrow> ChunkManager \<Rightarrow> nat" where
  "fetching_of k s =
     length (filter (\<lambda>p. snd p = AwaitInvoke \<and> chunk_id (heap s ! fst p) = k) (suspended s))"

definition owed :: "string \<Rightarrow> ChunkManager \<Rightarrow> nat" where
  "owed k s = uploads_of k s + fetching_of k s + count_list (requestQueue s) k"

definition ids_ok :: "ChunkManager \<Rightarrow> bool" where
  "ids_ok s \<longleftrightarrow>
     (\<forall>u \<in> set (uploads s). fst u < length (heap s))
   \<and> (\<forall>p \<in> set (chunks s). chunk_id (heap s ! snd p) = fst p)"

subsection \<open>Example runs\<close>

text \<open>
  A one-pixel tile at grid position \<open>(cx, cy)\<close> as the metadata declares it, and the blob
  of a one-pixel tile: width 1, height 1, one red pixel.
\<close>

definition tile :: "nat \<Rightarrow> nat \<Rightarrow> ChunkInfo" where
  "tile cx cy = \<lparr> x_pos = cx, y_pos = cy, width = 1, height = 1, chunk_x = cx, chunk_y = cy \<rparr>"

definition blob_1x1 :: "byte list" where
  "blob_1x1 = [0, 0, 0, 1, 0, 0, 0, 1, 255, 0, 0, 255]"

text \<open>
  Four tiles. Three requests fill the three slots; \<open>1_1\<close> is then requested twice while it
  waits in the queue. The first two requests complete, which starts the two queued
  entries, and both of these complete as well.
\<close>

definition run_duplicate_request :: "event list" where
  "run_duplicate_request =
     [SetWebGLContext, InitializeChunks [tile 0 0, tile 1 0, tile 0 1, tile 1 1],
      RequestChunk ''0_0'', RequestChunk ''1_0'', RequestChunk ''0_1'',
      RequestChunk ''1_1'', RequestChunk ''1_1'',
      InvokeSettled 0 (Bytes blob_1x1) GlOk, UploadAwaited 0,
      InvokeSettled 0 (Bytes blob_1x1) GlOk, UploadAwaited 0,
      InvokeSettled 1 (Bytes blob_1x1) GlOk, UploadAwaited 1,
      InvokeSettled 1 (Bytes blob_1x1) GlOk, UploadAwaited 1]"

text \<open>One tile, with the GL context and the ready callback set; then its request.\<close>

definition run_initialized :: "event list" where
  "run_initialized = [SetWebGLContext, SetOnChunkReady, InitializeChunks [tile 0 0]]"

definition run_one_request :: "event list" where
  "run_one_request = run_initialized @ [RequestChunk ''0_0'']"

text \<open>
  The blob of a tile two pixels wide and one high, and runs in which the request of the
  single tile meets a failure: the ready callback throws after the upload;
  \<open>createTexture\<close> returns null for a well-framed blob; the backend rejects the request.
\<close>

definition blob_2x1 :: "byte list" where
  "blob_2x1 = [0, 0, 0, 2, 0, 0, 0, 1, 255, 0, 0, 255, 0, 255, 0, 255]"

definition run_callback_throws :: "event list" where
  "run_callback_throws = run_one_request @ [InvokeSettled 0 (Bytes blob_1x1) CallbackThrows]"

definition run_texture_null :: "event list" where
  "run_texture_null = run_one_request @ [InvokeSettled 0 (Bytes blob_1x1) CreateTextureNull]"

definition run_fetch_rejected :: "event list" where
  "run_fetch_rejected = run_one_request @ [InvokeSettled 0 Rejected GlOk]"

text \<open>
  The run with the duplicate request, up to the first upload of \<open>1_1\<close>; the backend then
  rejects the second request for it.
\<close>

definition run_duplicate_then_rejected :: "event list" where
  "run_duplicate_then_rejected =
     take 13 run_duplicate_request @ [InvokeSettled 1 Rejected GlOk]"

text \<open>One tile is requested although no GL context was ever set; the blob is well framed.\<close>

definition run_no_context_request :: "event list" where
  "run_no_context_request = [InitializeChunks [tile 0 0], RequestChunk ''0_0'']"

definition run_no_context :: "event list" where
  "run_no_context =
     run_no_context_request @ [InvokeSettled 0 (Bytes blob_1x1) GlOk, UploadAwaited 0]"

text \<open>
  \<open>cleanup\<close> is called while three fetches are pending. After that, either the same three
  tiles are initialised and requested again at once; or the three pending fetches are
  rejected first, and then six tiles are initialised and requested.
\<close>

definition run_cleanup_pending :: "event list" where
  "run_cleanup_pending =
     [SetWebGLContext, InitializeChunks [tile 0 0, tile 1 0, tile 0 1],
      RequestChunk ''0_0'', RequestChunk ''1_0'', RequestChunk ''0_1'', Cleanup]"

definition run_cleanup_then_reload :: "event list" where
  "run_cleanup_then_reload =
     run_cleanup_pending @
     [InitializeChunks [tile 0 0, tile 1 0, tile 0 1],
      RequestChunk ''0_0'', RequestChunk ''1_0'', RequestChunk ''0_1'']"

definition run_cleanup_then_settle :: "event list" where
  "run_cleanup_then_settle =
     run_cleanup_pending @
     [InvokeSettled 0 Rejected GlOk, InvokeSettled 0 Rejected GlOk, InvokeSettled 0 Rejected GlOk]"

definition run_cleanup_then_six :: "event list" where
  "run_cleanup_then_six =
     run_cleanup_then_settle @
     [InitializeChunks [tile 0 0, tile 1 0, tile 2 0, tile 0 1, tile 1 1, tile 2 1],
      RequestChunk ''0_0'', RequestChunk ''1_0'', RequestChunk ''2_0'',
      RequestChunk ''0_1'', RequestChunk ''1_1'', RequestChunk ''2_1'']"

text \<open>Three tiles are in flight and a fourth is queued.\<close>

definition run_full_slots :: "event list" where
  "run_full_slots =
     [SetWebGLContext, InitializeChunks [tile 0 0, tile 1 0, tile 0 1, tile 1 1],
      RequestChunk ''0_0'', RequestChunk ''1_0'', RequestChunk ''0_1'', RequestChunk ''1_1'']"

section \<open>Properties of the spatial scheduler\<close>

declare string_of_nat.simps [simp del] batch_row.simps [simp del] batch_rows.simps [simp del]

subsection \<open>Ids determine their indices\<close>

lemma digit_cases: "d < 10 \<Longrightarrow> d \<in> {0, 1, 2, 3, 4, 5, 6, 7, 8, 9::nat}"
  by auto

lemma digit_val_digit_char: "d < 10 \<Longrightarrow> digit_val (digit_char d) = d"
  using digit_cases [of d] by (auto simp: digit_val_def digit_char_def)

lemma digit_char_not_sep: "d < 10 \<Longrightarrow> digit_char d \<noteq> CHR ''_''"
  using digit_cases [of d] by (auto simp: digit_char_def)

lemma nat_of_string_snoc: "nat_of_string (cs @ [c]) = 10 * nat_of_string cs + digit_val c"
  by (simp add: nat_of_string_def)

lemma nat_of_string_of_nat: "nat_of_string (string_of_nat n) = n"
proof (induction n rule: string_of_nat.induct)
  case (1 n)
  show ?case
  proof (cases "n < 10")
    case True
    then show ?thesis
      by (simp add: string_of_nat.simps [of n] nat_of_string_def digit_val_digit_char)
  next
    case False
    with 1 show ?thesis
      by (simp add: string_of_nat.simps [of n] nat_of_string_snoc digit_val_digit_char)
  qed
qed

lemma string_of_nat_no_sep: "CHR ''_'' \<notin> set (string_of_nat n)"
proof (induction n rule: string_of_nat.induct)
  case (1 n)
  show ?case
  proof (cases "n < 10")
    case True
    then show ?thesis
      using digit_char_not_sep [of n] by (simp add: string_of_nat.simps [of n])
  next
    case False
    with 1 show ?thesis
      using digit_char_not_sep [of "n mod 10"] by (simp add: string_of_nat.simps [of n])
  qed
qed

lemma string_of_nat_inj:
  assumes "string_of_nat m = string_of_nat n"
  shows "m = n"
proof -
  have "nat_of_string (string_of_nat m) = nat_of_string (string_of_nat n)"
    by (simp only: assms)
  then show ?thesis by (simp only: nat_of_string_of_nat)
qed

lemma sep_split:
  assumes "CHR ''_'' \<notin> set a" "CHR ''_'' \<notin> set b" "a @ CHR ''_'' # c = b @ CHR ''_'' # d"
  shows "a = b \<and> c = d"
proof -
  have "takeWhile (\<lambda>ch. ch \<noteq> CHR ''_'') (a @ CHR ''_'' # c) = a"
    using assms(1) by (induction a) auto
  moreover have "takeWhile (\<lambda>ch. ch \<noteq> CHR ''_'') (b @ CHR ''_'' # d) = b"
    using assms(2) by (induction b) auto
  ultimately have "a = b" using assms(3) by simp
  with assms(3) show ?thesis by simp
qed

lemma chunkId_of_inj: "chunkId_of x y = chunkId_of x' y' \<longleftrightarrow> x = x' \<and> y = y'"
proof
  assume "chunkId_of x y = chunkId_of x' y'"
  then have "string_of_nat x @ CHR ''_'' # string_of_nat y
           = string_of_nat x' @ CHR ''_'' # string_of_nat y'"
    by (simp add: chunkId_of_def)
  then have "string_of_nat x = string_of_nat x' \<and> string_of_nat y = string_of_nat y'"
    by (rule sep_split [OF string_of_nat_no_sep string_of_nat_no_sep])
  then show "x = x' \<and> y = y'" by (blast dest: string_of_nat_inj)
next
  assume "x = x' \<and> y = y'"
  then show "chunkId_of x y = chunkId_of x' y'" by simp
qed

lemma chunkId_of_nonempty: "chunkId_of x y \<noteq> []"
  by (simp add: chunkId_of_def)

subsection \<open>What the loops compute\<close>

lemma steps2_empty: "\<not> a < n \<Longrightarrow> steps2 a n = []"
  by (simp add: steps2_def)

lemma steps2_Cons: "a < n \<Longrightarrow> steps2 a n = a # steps2 (a + 2) n"
proof -
  assume a: "a < n"
  then have "(n + 1 - a) div 2 = Suc ((n + 1 - (a + 2)) div 2)" by arith
  then show ?thesis
    by (simp add: steps2_def upt_conv_Cons map_Suc_upt [symmetric] del: upt_Suc)
qed

lemma set_steps2: "set (steps2 a n) = {x. a \<le> x \<and> x < n \<and> even (x - a)}"
proof -
  have "x \<in> (\<lambda>k. a + 2 * k) ` {0..<(n + 1 - a) div 2}"
    if h: "a \<le> x" "x < n" "even (x - a)" for x
  proof -
    from h have "x = a + 2 * ((x - a) div 2)" "(x - a) div 2 < (n + 1 - a) div 2"
      by presburger+
    then show ?thesis
      by (metis atLeastLessThan_iff image_eqI zero_le)
  qed
  then show ?thesis by (auto simp: steps2_def)
qed

lemma distinct_steps2: "distinct (steps2 a n)"
  by (simp add: steps2_def distinct_map inj_on_def)

lemma batch_row_eq:
  "batch_row gw y x batch = batch @ map (\<lambda>x'. chunkId_of x' y) (steps2 x gw)"
proof (induction gw y x batch rule: batch_row.induct)
  case (1 gw y x batch)
  show ?case
  proof (cases "x < gw")
    case True
    with 1 show ?thesis
      by (simp add: steps2_Cons [of x gw] batch_row.simps [of gw y x batch])
  next
    case False
    then show ?thesis
      by (simp add: steps2_empty batch_row.simps [of gw y x batch])
  qed
qed

lemma batch_rows_eq:
  "batch_rows gw gh x0 y batch =
     batch @ concat (map (\<lambda>y'. map (\<lambda>x'. chunkId_of x' y') (steps2 x0 gw)) (steps2 y gh))"
proof (induction gw gh x0 y batch rule: batch_rows.induct)
  case (1 gw gh x0 y batch)
  show ?case
  proof (cases "y < gh")
    case True
    with 1 show ?thesis
      by (simp add: steps2_Cons [of y gh] batch_row_eq batch_rows.simps [of gw gh x0 y batch])
  next
    case False
    then show ?thesis
      by (simp add: steps2_empty batch_rows.simps [of gw gh x0 y batch])
  qed
qed

lemma batch_rows_product:
  "batch_rows gw gh x0 y0 [] =
     map (\<lambda>(y, x). chunkId_of x y) (List.product (steps2 y0 gh) (steps2 x0 gw))"
proof -
  have "concat (map (\<lambda>y'. map (\<lambda>x'. chunkId_of x' y') xs) ys)
        = map (\<lambda>(y, x). chunkId_of x y) (List.product ys xs)" for xs ys
    by (induction ys) (simp_all add: comp_def)
  then show ?thesis by (simp add: batch_rows_eq)
qed

lemma distinct_batch_rows: "distinct (batch_rows gw gh x0 y0 [])"
proof -
  have "inj_on (\<lambda>(y, x). chunkId_of x y) A" for A
    by (auto simp: inj_on_def chunkId_of_inj)
  then show ?thesis
    by (simp add: batch_rows_product distinct_map distinct_product distinct_steps2)
qed

lemma set_batch_rows:
  "set (batch_rows gw gh x0 y0 []) =
     {chunkId_of x y | x y. x0 \<le> x \<and> x < gw \<and> even (x - x0) \<and> y0 \<le> y \<and> y < gh \<and> even (y - y0)}"
  by (auto simp: batch_rows_product set_steps2)

lemma odd_iff: "1 \<le> x \<and> x < n \<and> even (x - 1) \<longleftrightarrow> x < n \<and> odd (x::nat)"
  by presburger

lemma set_batch1:
  "set (batch1 gx gy) = {chunkId_of x y | x y. x < gx \<and> y < gy \<and> odd x \<and> odd y}"
  unfolding batch1_def set_batch_rows using odd_iff by auto

lemma set_batch2:
  "set (batch2 gx gy) = {chunkId_of x y | x y. x < gx \<and> y < gy \<and> even x \<and> even y}"
  unfolding batch2_def set_batch_rows by auto

lemma set_batch3:
  "set (batch3 gx gy) = {chunkId_of x y | x y. x < gx \<and> y < gy \<and> odd x \<and> even y}"
  unfolding batch3_def set_batch_rows using odd_iff by auto

lemma set_batch4:
  "set (batch4 gx gy) = {chunkId_of x y | x y. x < gx \<and> y < gy \<and> even x \<and> odd y}"
  unfolding batch4_def set_batch_rows using odd_iff by auto

lemmas set_batches = set_batch1 set_batch2 set_batch3 set_batch4

lemma distinct_batches:
  "distinct (batch1 gx gy)" "distinct (batch2 gx gy)"
  "distinct (batch3 gx gy)" "distinct (batch4 gx gy)"
  by (simp_all add: batch1_def batch2_def batch3_def batch4_def distinct_batch_rows)

lemma concat_push_nonempty: "concat (push_nonempty b bs) = concat bs @ b"
  by (simp add: push_nonempty_def)

lemma concat_createSpatialBatches:
  "concat (createSpatialBatches gx gy) = batch1 gx gy @ batch2 gx gy @ batch3 gx gy @ batch4 gx gy"
  by (simp add: createSpatialBatches_def concat_push_nonempty)

lemma createSpatialBatches_filter:
  "createSpatialBatches gx gy =
     filter (\<lambda>b. b \<noteq> []) [batch1 gx gy, batch2 gx gy, batch3 gx gy, batch4 gx gy]"
  by (simp add: createSpatialBatches_def push_nonempty_def)

lemma batch_mem:
  "chunkId_of x y \<in> set (batch1 gx gy) \<longleftrightarrow> x < gx \<and> y < gy \<and> odd x \<and> odd y"
  "chunkId_of x y \<in> set (batch2 gx gy) \<longleftrightarrow> x < gx \<and> y < gy \<and> even x \<and> even y"
  "chunkId_of x y \<in> set (batch3 gx gy) \<longleftrightarrow> x < gx \<and> y < gy \<and> odd x \<and> even y"
  "chunkId_of x y \<in> set (batch4 gx gy) \<longleftrightarrow> x < gx \<and> y < gy \<and> even x \<and> odd y"
  by (simp_all add: set_batches chunkId_of_inj)

lemma batch_elem:
  assumes "c \<in> set (batch1 gx gy) \<union> set (batch2 gx gy) \<union> set (batch3 gx gy) \<union> set (batch4 gx gy)"
  obtains x y where "c = chunkId_of x y" "x < gx" "y < gy"
  using assms unfolding set_batches by blast

lemma batches_disjoint:
  "set (batch1 gx gy) \<inter> set (batch2 gx gy) = {}"
  "set (batch1 gx gy) \<inter> set (batch3 gx gy) = {}"
  "set (batch1 gx gy) \<inter> set (batch4 gx gy) = {}"
  "set (batch2 gx gy) \<inter> set (batch3 gx gy) = {}"
  "set (batch2 gx gy) \<inter> set (batch4 gx gy) = {}"
  "set (batch3 gx gy) \<inter> set (batch4 gx gy) = {}"
proof -
  have *: "A \<inter> B = {}"
    if "A \<subseteq> set (batch1 gx gy) \<union> set (batch2 gx gy) \<union> set (batch3 gx gy) \<union> set (batch4 gx gy)"
      and "\<And>x y. chunkId_of x y \<in> A \<Longrightarrow> chunkId_of x y \<in> B \<Longrightarrow> False" for A B
  proof (rule ccontr)
    assume "A \<inter> B \<noteq> {}"
    then obtain c where c: "c \<in> A" "c \<in> B" by blast
    from c(1) that(1) have "c \<in> set (batch1 gx gy) \<union> set (batch2 gx gy) \<union> set (batch3 gx gy) \<union> set (batch4 gx gy)"
      by blast
    then obtain x y where "c = chunkId_of x y" by (rule batch_elem)
    with c that(2) show False by blast
  qed
  show "set (batch1 gx gy) \<inter> set (batch2 gx gy) = {}" by (rule *) (auto simp: batch_mem)
  show "set (batch1 gx gy) \<inter> set (batch3 gx gy) = {}" by (rule *) (auto simp: batch_mem)
  show "set (batch1 gx gy) \<inter> set (batch4 gx gy) = {}" by (rule *) (auto simp: batch_mem)
  show "set (batch2 gx gy) \<inter> set (batch3 gx gy) = {}" by (rule *) (auto simp: batch_mem)
  show "set (batch2 gx gy) \<inter> set (batch4 gx gy) = {}" by (rule *) (auto simp: batch_mem)
  show "set (batch3 gx gy) \<inter> set (batch4 gx gy) = {}" by (rule *) (auto simp: batch_mem)
qed

lemma batches_cover:
  "set (batch1 gx gy) \<union> set (batch2 gx gy) \<union> set (batch3 gx gy) \<union> set (batch4 gx gy)
     = grid_ids gx gy"
proof (rule set_eqI, rule iffI)
  fix c
  assume "c \<in> set (batch1 gx gy) \<union> set (batch2 gx gy) \<union> set (batch3 gx gy) \<union> set (batch4 gx gy)"
  then obtain x y where "c = chunkId_of x y" "x < gx" "y < gy" by (rule batch_elem)
  then show "c \<in> grid_ids gx gy" unfolding grid_ids_def by blast
next
  fix c
  assume "c \<in> grid_ids gx gy"
  then obtain x y where c: "c = chunkId_of x y" "x < gx" "y < gy"
    unfolding grid_ids_def by blast
  then have "c \<in> set (batch1 gx gy) \<or> c \<in> set (batch2 gx gy)
           \<or> c \<in> set (batch3 gx gy) \<or> c \<in> set (batch4 gx gy)"
    by (cases "even x"; cases "even y") (simp_all add: batch_mem)
  then show "c \<in> set (batch1 gx gy) \<union> set (batch2 gx gy) \<union> set (batch3 gx gy) \<union> set (batch4 gx gy)"
    by blast
qed

lemma distinct_concat_batches: "distinct (concat (createSpatialBatches gx gy))"
  using batches_disjoint [of gx gy]
  by (simp add: concat_createSpatialBatches distinct_batches Int_Un_distrib Int_Un_distrib2)

lemma set_concat_batches: "set (concat (createSpatialBatches gx gy)) = grid_ids gx gy"
  using batches_cover [of gx gy] by (simp add: concat_createSpatialBatches Un_assoc)

lemma no_empty_batch: "[] \<notin> set (createSpatialBatches gx gy)"
  by (simp add: createSpatialBatches_filter)

lemma batches_pairwise_disjoint:
  assumes "i < length (createSpatialBatches gx gy)" "j < length (createSpatialBatches gx gy)"
    and "i \<noteq> j"
  shows "set (createSpatialBatches gx gy ! i) \<inter> set (createSpatialBatches gx gy ! j) = {}"
proof -
  let ?bs = "createSpatialBatches gx gy"
  have d: "distinct (concat ?bs)" by (rule distinct_concat_batches)
  have "removeAll [] ?bs = ?bs" using no_empty_batch [of gx gy] by simp
  with d have "distinct ?bs" by (simp add: distinct_concat_iff)
  with assms have "?bs ! i \<noteq> ?bs ! j" by (simp add: nth_eq_iff_index_eq)
  moreover have "?bs ! i \<in> set ?bs" "?bs ! j \<in> set ?bs" using assms by simp_all
  ultimately show ?thesis using d by (simp add: distinct_concat_iff)
qed

lemma distinct_count_list_1: "distinct xs \<Longrightarrow> x \<in> set xs \<Longrightarrow> count_list xs x = 1"
  by (induction xs) auto

lemma batch_nonempty:
  "batch1 gx gy \<noteq> [] \<longleftrightarrow> 2 \<le> gx \<and> 2 \<le> gy"
  "batch2 gx gy \<noteq> [] \<longleftrightarrow> 1 \<le> gx \<and> 1 \<le> gy"
  "batch3 gx gy \<noteq> [] \<longleftrightarrow> 2 \<le> gx \<and> 1 \<le> gy"
  "batch4 gx gy \<noteq> [] \<longleftrightarrow> 1 \<le> gx \<and> 2 \<le> gy"
proof -
  have ne: "b \<noteq> [] \<longleftrightarrow> (\<exists>c. c \<in> set b)" for b :: "string list"
    by (cases b) auto
  show "batch1 gx gy \<noteq> [] \<longleftrightarrow> 2 \<le> gx \<and> 2 \<le> gy"
  proof
    assume "batch1 gx gy \<noteq> []"
    then obtain x y where "x < gx" "y < gy" "odd x" "odd y"
      unfolding ne set_batch1 by blast
    then show "2 \<le> gx \<and> 2 \<le> gy" by (cases x; cases y) auto
  next
    assume "2 \<le> gx \<and> 2 \<le> gy"
    then have "chunkId_of 1 1 \<in> set (batch1 gx gy)" by (simp add: batch_mem)
    then show "batch1 gx gy \<noteq> []" by auto
  qed
  show "batch2 gx gy \<noteq> [] \<longleftrightarrow> 1 \<le> gx \<and> 1 \<le> gy"
  proof
    assume "batch2 gx gy \<noteq> []"
    then obtain x y where "x < gx" "y < gy"
      unfolding ne set_batch2 by blast
    then show "1 \<le> gx \<and> 1 \<le> gy" by auto
  next
    assume "1 \<le> gx \<and> 1 \<le> gy"
    then have "chunkId_of 0 0 \<in> set (batch2 gx gy)" by (simp add: batch_mem)
    then show "batch2 gx gy \<noteq> []" by auto
  qed
  show "batch3 gx gy \<noteq> [] \<longleftrightarrow> 2 \<le> gx \<and> 1 \<le> gy"
  proof
    assume "batch3 gx gy \<noteq> []"
    then obtain x y where "x < gx" "y < gy" "odd x"
      unfolding ne set_batch3 by blast
    then show "2 \<le> gx \<and> 1 \<le> gy" by (cases x) auto
  next
    assume "2 \<le> gx \<and> 1 \<le> gy"
    then have "chunkId_of 1 0 \<in> set (batch3 gx gy)" by (simp add: batch_mem)
    then show "batch3 gx gy \<noteq> []" by auto
  qed
  show "batch4 gx gy \<noteq> [] \<longleftrightarrow> 1 \<le> gx \<and> 2 \<le> gy"
  proof
    assume "batch4 gx gy \<noteq> []"
    then obtain x y where "x < gx" "y < gy" "odd y"
      unfolding ne set_batch4 by blast
    then show "1 \<le> gx \<and> 2 \<le> gy" by (cases y) auto
  next
    assume "1 \<le> gx \<and> 2 \<le> gy"
    then have "chunkId_of 0 1 \<in> set (batch4 gx gy)" by (simp add: batch_mem)
    then show "batch4 gx gy \<noteq> []" by auto
  qed
qed

lemma length_createSpatialBatches:
  "length (createSpatialBatches gx gy) =
     (if gx = 0 \<or> gy = 0 then 0 else if 2 \<le> gx \<and> 2 \<le> gy then 4
      else if gx = 1 \<and> gy = 1 then 1 else 2)"
proof -
  have e: "batch1 gx gy = [] \<longleftrightarrow> \<not> (2 \<le> gx \<and> 2 \<le> gy)"
    "batch2 gx gy = [] \<longleftrightarrow> \<not> (1 \<le> gx \<and> 1 \<le> gy)"
    "batch3 gx gy = [] \<longleftrightarrow> \<not> (2 \<le> gx \<and> 1 \<le> gy)"
    "batch4 gx gy = [] \<longleftrightarrow> \<not> (1 \<le> gx \<and> 2 \<le> gy)"
    using batch_nonempty [of gx gy] by blast+
  have L: "length (createSpatialBatches gx gy) =
      (if 2 \<le> gx \<and> 2 \<le> gy then 1 else 0) + (if 1 \<le> gx \<and> 1 \<le> gy then 1 else 0)
    + (if 2 \<le> gx \<and> 1 \<le> gy then 1 else 0) + (if 1 \<le> gx \<and> 2 \<le> gy then 1 else (0::nat))"
    by (auto simp add: createSpatialBatches_filter e)
  consider "gx = 0 \<or> gy = 0" | "2 \<le> gx \<and> 2 \<le> gy" | "gx = 1 \<and> gy = 1"
    | "gx = 1 \<and> 2 \<le> gy" | "2 \<le> gx \<and> gy = 1"
    by linarith
  then show ?thesis
    unfolding L by cases auto
qed

lemmas batch_eval = createSpatialBatches_def push_nonempty_def batch1_def batch2_def batch3_def
  batch4_def batch_rows.simps batch_row.simps chunkId_of_def string_of_nat.simps digit_char_def

lemma createSpatialBatches_2_2:
  "createSpatialBatches 2 2 = [[''1_1''], [''0_0''], [''1_0''], [''0_1'']]"
  by (simp add: batch_eval)

lemma createSpatialBatches_1_1: "createSpatialBatches 1 1 = [[''0_0'']]"
  by (simp add: batch_eval)

text \<open>
  Claim C1. For every grid, the batches returned by \<open>createSpatialBatches\<close> are pairwise
  disjoint, their union is exactly the set of the ids \<open>x_y\<close> with \<open>x < gx\<close> and \<open>y < gy\<close>,
  and each of these ids occurs exactly once in all the batches together.
\<close>

theorem spatial_batches_partition:
  "distinct (concat (createSpatialBatches gx gy))
   \<and> set (concat (createSpatialBatches gx gy)) = grid_ids gx gy
   \<and> (\<forall>i < length (createSpatialBatches gx gy). \<forall>j < length (createSpatialBatches gx gy).
        i \<noteq> j \<longrightarrow> set (createSpatialBatches gx gy ! i) \<inter> set (createSpatialBatches gx gy ! j) = {})
   \<and> (\<forall>c \<in> grid_ids gx gy. count_list (concat (createSpatialBatches gx gy)) c = 1)"
  using distinct_concat_batches [of gx gy] set_concat_batches [of gx gy]
    batches_pairwise_disjoint [of _ gx gy]
  by (simp add: distinct_count_list_1)

theorem spatial_batches_partition_witness:
  "(0::nat) < length (createSpatialBatches 2 2) \<and> (1::nat) < length (createSpatialBatches 2 2)
   \<and> set (createSpatialBatches 2 2 ! 0) \<inter> set (createSpatialBatches 2 2 ! 1) = {}
   \<and> ''1_0'' \<in> grid_ids 2 2
   \<and> count_list (concat (createSpatialBatches 2 2)) ''1_0'' = 1"
proof -
  have l: "length (createSpatialBatches 2 2) = 4" by (simp add: createSpatialBatches_2_2)
  have "''1_0'' = chunkId_of 1 0" by (simp add: batch_eval)
  then have m: "''1_0'' \<in> grid_ids 2 2" unfolding grid_ids_def by force
  from spatial_batches_partition [of 2 2] l m show ?thesis by simp
qed

text \<open>
  Claim C5. No two tiles of the odd/odd batch \<open>batch1\<close> are 4-neighbours. The same holds
  for every batch that \<open>createSpatialBatches\<close> returns, so also for the first one returned
  when the odd/odd batch is empty and is not returned.
\<close>

theorem first_batch_no_neighbours:
  assumes "b = batch1 gx gy \<or> b \<in> set (createSpatialBatches gx gy)"
    and "chunkId_of x1 y1 \<in> set b" and "chunkId_of x2 y2 \<in> set b"
  shows "\<bar>int x1 - int x2\<bar> + \<bar>int y1 - int y2\<bar> \<noteq> 1"
proof -
  from assms(1) have "b = batch1 gx gy \<or> b = batch2 gx gy \<or> b = batch3 gx gy \<or> b = batch4 gx gy"
    unfolding createSpatialBatches_filter set_filter by auto
  with assms(2,3) have "(even x1 \<longleftrightarrow> even x2) \<and> (even y1 \<longleftrightarrow> even y2)"
    by (auto simp: batch_mem)
  then show ?thesis by presburger
qed

theorem first_batch_no_neighbours_witness:
  "hd (createSpatialBatches 4 4) = batch1 4 4
   \<and> chunkId_of 1 1 \<in> set (batch1 4 4) \<and> chunkId_of 3 1 \<in> set (batch1 4 4)
   \<and> \<bar>int 1 - int 3\<bar> + \<bar>int 1 - int 1\<bar> \<noteq> 1"
proof -
  have m: "chunkId_of 1 1 \<in> set (batch1 4 4)" "chunkId_of 3 1 \<in> set (batch1 4 4)"
    by (simp_all add: batch_mem)
  have h: "hd (createSpatialBatches 4 4) = batch1 4 4"
    using batch_nonempty(1) [of 4 4] by (simp add: createSpatialBatches_filter)
  from first_batch_no_neighbours [of "batch1 4 4" 4 4 1 1 3 1] m h show ?thesis by simp
qed

text \<open>
  Claim C9 says that exactly four batches are emitted for every grid with \<open>gx \<ge> 1\<close> and
  \<open>gy \<ge> 1\<close>. The source pushes a batch only if it is not empty: a 1 by 1 grid gives one
  batch.
\<close>

theorem four_batches_counterexample:
  "(1::nat) \<ge> 1 \<and> createSpatialBatches 1 1 = [[''0_0'']] \<and> length (createSpatialBatches 1 1) \<noteq> 4"
  using createSpatialBatches_1_1 by simp

text \<open>
  Claim C9, amended. \<open>createSpatialBatches\<close> returns the non-empty ones among the four
  parity classes, in the order odd/odd, even/even, odd \<open>x\<close>/even \<open>y\<close>, even \<open>x\<close>/odd
  \<open>y\<close>: four batches when \<open>gx \<ge> 2\<close> and \<open>gy \<ge> 2\<close>, one for the 1 by 1 grid, two when
  exactly one of \<open>gx\<close>, \<open>gy\<close> is 1. For the 2 by 2 grid the batches are
  \<open>[1_1]\<close>, \<open>[0_0]\<close>, \<open>[1_0]\<close>, \<open>[0_1]\<close>.
\<close>

theorem batches_by_parity:
  "createSpatialBatches gx gy =
      filter (\<lambda>b. b \<noteq> []) [batch1 gx gy, batch2 gx gy, batch3 gx gy, batch4 gx gy]
   \<and> set (batch1 gx gy) = {chunkId_of x y | x y. x < gx \<and> y < gy \<and> odd x \<and> odd y}
   \<and> set (batch2 gx gy) = {chunkId_of x y | x y. x < gx \<and> y < gy \<and> even x \<and> even y}
   \<and> set (batch3 gx gy) = {chunkId_of x y | x y. x < gx \<and> y < gy \<and> odd x \<and> even y}
   \<and> set (batch4 gx gy) = {chunkId_of x y | x y. x < gx \<and> y < gy \<and> even x \<and> odd y}
   \<and> length (createSpatialBatches gx gy) =
       (if gx = 0 \<or> gy = 0 then 0 else if 2 \<le> gx \<and> 2 \<le> gy then 4
        else if gx = 1 \<and> gy = 1 then 1 else 2)
   \<and> createSpatialBatches 2 2 = [[''1_1''], [''0_0''], [''1_0''], [''0_1'']]"
  using createSpatialBatches_filter [of gx gy] set_batches [of gx gy]
    length_createSpatialBatches [of gx gy] createSpatialBatches_2_2
  by simp

section \<open>Properties of the chunk manager\<close>

subsection \<open>Invariants of every run\<close>

lemma update_chunk_fields [simp]:
  "chunks (update_chunk r f s) = chunks s"
  "gl (update_chunk r f s) = gl s"
  "requestQueue (update_chunk r f s) = requestQueue s"
  "activeRequests (update_chunk r f s) = activeRequests s"
  "onChunkReady (update_chunk r f s) = onChunkReady s"
  "suspended (update_chunk r f s) = suspended s"
  "clock (update_chunk r f s) = clock s"
  "textures_created (update_chunk r f s) = textures_created s"
  "uploads (update_chunk r f s) = uploads s"
  "deleted (update_chunk r f s) = deleted s"
  "length (heap (update_chunk r f s)) = length (heap s)"
  by (simp_all add: update_chunk_def)

lemma heap_update_chunk [simp]: "heap (update_chunk r f s) = (heap s)[r := f (heap s ! r)]"
  by (simp add: update_chunk_def)

lemma nth_update_same:
  "xs[r := f (xs ! r)] ! r' = (if r' = r \<and> r < length xs then f (xs ! r) else xs ! r')"
  by (cases "r < length xs") (auto simp: nth_list_update list_update_beyond)

lemma update_all:
  assumes "\<forall>c \<in> set xs. Q c" and "\<And>c. Q c \<Longrightarrow> Q (f c)"
  shows "\<forall>c \<in> set (xs[r := f (xs ! r)]). Q c"
proof (cases "r < length xs")
  case True
  then have "Q (f (xs ! r))" using assms by simp
  then show ?thesis
    using assms(1) set_update_subset_insert [of xs r "f (xs ! r)"] by auto
next
  case False
  then show ?thesis using assms(1) by (simp add: list_update_beyond)
qed

lemma refs_ok_update_chunk [simp]: "refs_ok (update_chunk r f s) = refs_ok s"
  by (simp add: refs_ok_def)

lemma chunk_ok_ops:
  "chunk_ok c \<Longrightarrow> chunk_ok (updateStatus now REQUESTING c)"
  "chunk_ok c \<Longrightarrow> chunk_ok (updateStatus now ERROR c)"
  "chunk_ok c \<Longrightarrow> chunk_ok (setData now d c)"
  "chunk_ok c \<Longrightarrow> chunk_ok (setTexture now t c)"
  "chunk_ok c \<Longrightarrow> chunk_ok (c\<lparr>width := w, height := h\<rparr>)"
  "chunk_ok (fst (ImageChunk_cleanup c))"
  "chunk_ok (new_ImageChunk now ci)"
  by (simp_all add: chunk_ok_def updateStatus_def setData_def setTexture_def
      ImageChunk_cleanup_def new_ImageChunk_def)

text \<open>\<open>initializeChunks\<close>\<close>

lemma set_alist_update: "set (AList.update k v ps) \<subseteq> insert (k, v) (set ps)"
  by (induction ps) auto

lemma new_ImageChunk_id_nonempty: "chunk_id (new_ImageChunk now ci) \<noteq> []"
  by (simp add: new_ImageChunk_def chunkId_of_def)

lemma initializeChunks_fields [simp]:
  "gl (initializeChunks infos s) = gl s"
  "requestQueue (initializeChunks infos s) = requestQueue s"
  "activeRequests (initializeChunks infos s) = activeRequests s"
  "onChunkReady (initializeChunks infos s) = onChunkReady s"
  "suspended (initializeChunks infos s) = suspended s"
  "clock (initializeChunks infos s) = clock s"
  "textures_created (initializeChunks infos s) = textures_created s"
  "uploads (initializeChunks infos s) = uploads s"
  "deleted (initializeChunks infos s) = deleted s"
  by (induction infos arbitrary: s; simp add: Let_def)+

lemma initializeChunks_refs_ok: "refs_ok s \<Longrightarrow> refs_ok (initializeChunks infos s)"
proof (induction infos arbitrary: s)
  case Nil
  then show ?case by simp
next
  case (Cons ci infos)
  let ?c = "new_ImageChunk (clock s) ci"
  let ?s = "s\<lparr>heap := heap s @ [?c], chunks := AList.update (chunk_id ?c) (length (heap s)) (chunks s)\<rparr>"
  have "refs_ok ?s"
    using Cons.prems set_alist_update [of "chunk_id ?c" "length (heap s)" "chunks s"]
      new_ImageChunk_id_nonempty [of "clock s" ci]
    unfolding refs_ok_def
    by (auto simp: AList.dom_update less_Suc_eq)
  then show ?case using Cons.IH [of ?s] by (simp add: Let_def)
qed

lemma initializeChunks_heap_ok: "heap_ok s \<Longrightarrow> heap_ok (initializeChunks infos s)"
proof (induction infos arbitrary: s)
  case Nil
  then show ?case by simp
next
  case (Cons ci infos)
  let ?c = "new_ImageChunk (clock s) ci"
  let ?s = "s\<lparr>heap := heap s @ [?c], chunks := AList.update (chunk_id ?c) (length (heap s)) (chunks s)\<rparr>"
  have "heap_ok ?s" using Cons.prems by (simp add: heap_ok_def chunk_ok_ops)
  then show ?case using Cons.IH [of ?s] by (simp add: Let_def)
qed

text \<open>\<open>processQueue\<close>\<close>

lemma processQueue_refs_ok: "refs_ok s \<Longrightarrow> refs_ok (processQueue s)"
  unfolding processQueue_def refs_ok_def
  by (auto simp: Let_def dest!: map_of_SomeD split: list.splits option.splits)

lemma processQueue_cap:
  "activeRequests s \<le> maxConcurrentRequests \<Longrightarrow> activeRequests (processQueue s) \<le> maxConcurrentRequests"
  unfolding processQueue_def
  by (auto simp: Let_def split: list.splits option.splits)

lemma processQueue_heap_ok:
  assumes "heap_ok s"
  shows "heap_ok (processQueue s)"
  using assms update_all [of "heap s" chunk_ok "updateStatus (clock s) REQUESTING"]
  unfolding processQueue_def heap_ok_def
  by (simp add: Let_def chunk_ok_ops split: list.splits option.splits)

lemma processQueue_invariant: "invariant s \<Longrightarrow> invariant (processQueue s)"
  by (simp add: invariant_def processQueue_refs_ok processQueue_cap processQueue_heap_ok)

text \<open>\<open>requestChunk\<close>\<close>

lemma enqueue_invariant:
  assumes "invariant s" and "map_of (chunks s) chunkId = Some r"
  shows "invariant (s\<lparr>requestQueue := requestQueue s @ [chunkId]\<rparr>)"
proof -
  have "chunkId \<in> fst ` set (chunks s)"
    using map_of_SomeD [OF assms(2)] by (rule image_eqI [rotated]) simp
  then show ?thesis
    using assms(1) by (simp add: invariant_def refs_ok_def heap_ok_def)
qed

lemma requestChunk_invariant:
  assumes "invariant s"
  shows "invariant (requestChunk chunkId s)"
proof (cases "map_of (chunks s) chunkId")
  case None
  then show ?thesis using assms by (simp add: requestChunk_def)
next
  case (Some r)
  then show ?thesis
    using assms enqueue_invariant [OF assms Some]
    by (simp add: requestChunk_def Let_def processQueue_invariant)
qed

text \<open>The resumption of a suspended activation\<close>

lemma uploadChunkToGPU_fields [simp]:
  "chunks (uploadChunkToGPU g r s) = chunks s"
  "gl (uploadChunkToGPU g r s) = gl s"
  "requestQueue (uploadChunkToGPU g r s) = requestQueue s"
  "activeRequests (uploadChunkToGPU g r s) = activeRequests s"
  "onChunkReady (uploadChunkToGPU g r s) = onChunkReady s"
  "suspended (uploadChunkToGPU g r s) = suspended s"
  "clock (uploadChunkToGPU g r s) = clock s"
  "deleted (uploadChunkToGPU g r s) = deleted s"
  "length (heap (uploadChunkToGPU g r s)) = length (heap s)"
  by (simp_all add: uploadChunkToGPU_def Let_def split: gl_behaviour.splits)

lemma heap_ok_update_chunk:
  assumes "heap_ok s" and "\<And>c. chunk_ok c \<Longrightarrow> chunk_ok (f c)"
  shows "heap_ok (update_chunk r f s)"
  using update_all [of "heap s" chunk_ok f r] assms by (simp add: heap_ok_def)

lemma heap_ok_cong: "heap s' = heap s \<Longrightarrow> heap_ok s' = heap_ok s"
  by (simp add: heap_ok_def)

lemma uploadChunkToGPU_heap_ok:
  assumes "heap_ok s"
  shows "heap_ok (uploadChunkToGPU g r s)"
proof -
  have *: "heap_ok s' \<Longrightarrow> heap_ok (update_chunk r (updateStatus now ERROR) s')" for s' now
    by (rule heap_ok_update_chunk) (simp_all add: chunk_ok_ops)
  have **: "heap_ok s' \<Longrightarrow> heap_ok (update_chunk r (setTexture now t) s')" for s' now t
    by (rule heap_ok_update_chunk) (simp_all add: chunk_ok_ops)
  have c: "heap_ok (s\<lparr>textures_created := a\<rparr>)" "heap_ok (s\<lparr>textures_created := a, uploads := b\<rparr>)" for a b
    using assms by (simp_all add: heap_ok_def)
  show ?thesis
    unfolding uploadChunkToGPU_def Let_def
    using assms by (auto intro!: * ** c split: gl_behaviour.splits)
qed

lemma processQueue_try_fields:
  assumes "processQueue_try rawData g r s = Inr s'"
  shows "chunks s' = chunks s" "requestQueue s' = requestQueue s"
    "activeRequests s' = activeRequests s" "suspended s' = suspended s"
    "length (heap s') = length (heap s)" "gl s' = gl s" "onChunkReady s' = onChunkReady s"
    "clock s' = clock s" "deleted s' = deleted s"
  using assms
  by (auto simp: processQueue_try_def Let_def split: invoke_result.splits sum.splits)

lemma processQueue_try_heap_ok:
  assumes "heap_ok s" and "processQueue_try rawData g r s = Inr s'"
  shows "heap_ok s'"
proof -
  have 1: "heap_ok (update_chunk r (\<lambda>chunk. chunk\<lparr>width := w, height := h\<rparr>) s)" for w h
    by (rule heap_ok_update_chunk [OF assms(1)]) (simp add: chunk_ok_ops)
  have 2: "heap_ok s1 \<Longrightarrow> heap_ok (update_chunk r (setData now d) s1)" for s1 now d
    by (rule heap_ok_update_chunk) (simp_all add: chunk_ok_ops)
  show ?thesis
    using assms(2)
    by (auto simp: processQueue_try_def Let_def intro!: uploadChunkToGPU_heap_ok 1 2
        split: invoke_result.splits sum.splits)
qed

lemma refs_ok_suspended:
  assumes "refs_ok s" and "\<And>p. p \<in> set xs \<Longrightarrow> fst p < length (heap s)"
  shows "refs_ok (s\<lparr>suspended := xs\<rparr>)"
  using assms by (simp add: refs_ok_def)

lemma refs_ok_activeRequests [simp]: "refs_ok (s\<lparr>activeRequests := a\<rparr>) = refs_ok s"
  by (simp add: refs_ok_def)

lemma heap_ok_other_fields [simp]:
  "heap_ok (s\<lparr>activeRequests := a\<rparr>) = heap_ok s"
  "heap_ok (s\<lparr>suspended := xs\<rparr>) = heap_ok s"
  "heap_ok (s\<lparr>requestQueue := q\<rparr>) = heap_ok s"
  "heap_ok (s\<lparr>textures_created := n\<rparr>) = heap_ok s"
  "heap_ok (s\<lparr>uploads := u\<rparr>) = heap_ok s"
  by (simp_all add: heap_ok_def)

lemma in_set_remove_nth: "p \<in> set (take i xs @ drop (Suc i) xs) \<Longrightarrow> p \<in> set xs"
  by (auto dest: in_set_takeD in_set_dropD)

lemma processQueue_finally_invariant:
  assumes "invariant s"
  shows "invariant (processQueue_finally i s)"
proof -
  from assms have r: "refs_ok s" and c: "activeRequests s \<le> maxConcurrentRequests"
    and h: "heap_ok s"
    by (simp_all add: invariant_def)
  have "refs_ok (s\<lparr>suspended := take i (suspended s) @ drop (Suc i) (suspended s)\<rparr>)"
  proof (rule refs_ok_suspended [OF r])
    fix p assume "p \<in> set (take i (suspended s) @ drop (Suc i) (suspended s))"
    then have "p \<in> set (suspended s)" by (rule in_set_remove_nth)
    then show "fst p < length (heap s)" using r by (simp add: refs_ok_def)
  qed
  then have "refs_ok (s\<lparr>activeRequests := activeRequests s - 1,
      suspended := take i (suspended s) @ drop (Suc i) (suspended s)\<rparr>)"
    by (simp add: refs_ok_def)
  with c h have "invariant (s\<lparr>activeRequests := activeRequests s - 1,
      suspended := take i (suspended s) @ drop (Suc i) (suspended s)\<rparr>)"
    by (simp add: invariant_def)
  then show ?thesis
    unfolding processQueue_finally_def by (rule processQueue_invariant)
qed

lemma processQueue_catch_invariant: "invariant s \<Longrightarrow> invariant (processQueue_catch r s)"
  unfolding processQueue_catch_def invariant_def
  by (simp add: heap_ok_update_chunk chunk_ok_ops)

lemma invokeSettled_invariant:
  assumes "invariant s"
  shows "invariant (invokeSettled i rawData g s)"
proof (cases "i < length (suspended s) \<and> snd (suspended s ! i) = AwaitInvoke")
  case False
  then show ?thesis using assms by (auto simp: invokeSettled_def)
next
  case True
  let ?r = "fst (suspended s ! i)"
  have r: "?r < length (heap s)"
    using assms True unfolding invariant_def refs_ok_def by simp
  show ?thesis
  proof (cases "processQueue_try rawData g ?r s")
    case (Inl e)
    then show ?thesis
      using True assms
      by (simp add: invokeSettled_def processQueue_finally_invariant processQueue_catch_invariant)
  next
    case (Inr s')
    note f = processQueue_try_fields [OF Inr]
    have h: "heap_ok s'"
      using assms Inr by (auto simp: invariant_def intro: processQueue_try_heap_ok)
    have "refs_ok s'" using assms by (simp add: invariant_def refs_ok_def f)
    then have "refs_ok (s'\<lparr>suspended := (suspended s')[i := (?r, AwaitUpload)]\<rparr>)"
    proof (rule refs_ok_suspended)
      fix p assume "p \<in> set ((suspended s')[i := (?r, AwaitUpload)])"
      then have "p = (?r, AwaitUpload) \<or> p \<in> set (suspended s)"
        using set_update_subset_insert [of "suspended s" i "(?r, AwaitUpload)"]
        by (auto simp: f)
      then show "fst p < length (heap s')"
        using r assms by (auto simp: f invariant_def refs_ok_def)
    qed
    with h assms have "invariant (s'\<lparr>suspended := (suspended s')[i := (?r, AwaitUpload)]\<rparr>)"
      by (simp add: invariant_def f)
    then show ?thesis using True Inr by (simp add: invokeSettled_def)
  qed
qed

lemma uploadAwaited_invariant: "invariant s \<Longrightarrow> invariant (uploadAwaited i s)"
  by (simp add: uploadAwaited_def processQueue_finally_invariant)

text \<open>\<open>cleanup\<close>\<close>

lemma cleanup_chunk_fields [simp]:
  "chunks (cleanup_chunk r s) = chunks s"
  "gl (cleanup_chunk r s) = gl s"
  "requestQueue (cleanup_chunk r s) = requestQueue s"
  "activeRequests (cleanup_chunk r s) = activeRequests s"
  "suspended (cleanup_chunk r s) = suspended s"
  "length (heap (cleanup_chunk r s)) = length (heap s)"
  by (simp_all add: cleanup_chunk_def ImageChunk_cleanup_def)

lemma cleanup_chunk_heap_ok: "heap_ok s \<Longrightarrow> heap_ok (cleanup_chunk r s)"
  using update_all [of "heap s" chunk_ok "\<lambda>c. fst (ImageChunk_cleanup c)" r]
  by (simp add: cleanup_chunk_def heap_ok_def chunk_ok_ops split_beta)

lemma fold_cleanup_chunk:
  "suspended (fold cleanup_chunk rs s) = suspended s
   \<and> length (heap (fold cleanup_chunk rs s)) = length (heap s)
   \<and> (heap_ok s \<longrightarrow> heap_ok (fold cleanup_chunk rs s))"
  by (induction rs arbitrary: s) (simp_all add: cleanup_chunk_heap_ok)

lemma cleanup_invariant: "invariant s \<Longrightarrow> invariant (cleanup s)"
  using fold_cleanup_chunk [of "map snd (chunks s)" s]
  unfolding cleanup_def invariant_def refs_ok_def
  by (auto simp: Let_def heap_ok_def maxConcurrentRequests_def)

text \<open>Every run keeps the invariant.\<close>

lemma step_invariant: "invariant s \<Longrightarrow> invariant (step e s)"
proof (cases e)
  case SetWebGLContext
  then show "invariant s \<Longrightarrow> invariant (step e s)" by (simp add: invariant_def refs_ok_def heap_ok_def)
next
  case SetOnChunkReady
  then show "invariant s \<Longrightarrow> invariant (step e s)" by (simp add: invariant_def refs_ok_def heap_ok_def)
next
  case (InitializeChunks infos)
  then show "invariant s \<Longrightarrow> invariant (step e s)"
    by (simp add: invariant_def initializeChunks_refs_ok initializeChunks_heap_ok)
next
  case (RequestChunk chunkId)
  then show "invariant s \<Longrightarrow> invariant (step e s)" by (simp add: requestChunk_invariant)
next
  case (InvokeSettled i rawData g)
  then show "invariant s \<Longrightarrow> invariant (step e s)" by (simp add: invokeSettled_invariant)
next
  case (UploadAwaited i)
  then show "invariant s \<Longrightarrow> invariant (step e s)" by (simp add: uploadAwaited_invariant)
next
  case Cleanup
  then show "invariant s \<Longrightarrow> invariant (step e s)" by (simp add: cleanup_invariant)
next
  case (Tick n)
  then show "invariant s \<Longrightarrow> invariant (step e s)" by (simp add: invariant_def refs_ok_def heap_ok_def)
qed

lemma run_snoc: "run (es @ [e]) = step e (run es)"
  by (simp add: run_def)

lemma run_invariant: "invariant (run es)"
proof (induction es rule: rev_induct)
  case Nil
  show ?case
    by (simp add: run_def new_ChunkManager_def invariant_def refs_ok_def heap_ok_def
        maxConcurrentRequests_def)
next
  case (snoc e es)
  then show ?case by (simp add: run_snoc step_invariant)
qed

subsection \<open>Evaluating runs\<close>

lemmas run_eval = run_def new_ChunkManager_def new_ImageChunk_def updateStatus_def setData_def
  setTexture_def ImageChunk_cleanup_def be_u32_def getUint32_def parseChunkData_def
  update_chunk_def processQueue_def requestChunk_def uploadChunkToGPU_def processQueue_try_def
  processQueue_catch_def processQueue_finally_def invokeSettled_def uploadAwaited_def
  cleanup_chunk_def cleanup_def upload_count_def maxConcurrentRequests_def chunkId_of_def
  string_of_nat.simps digit_char_def tile_def blob_1x1_def Let_def

lemma run_one_request_state:
  "run run_one_request =
     \<lparr> chunks = [(''0_0'', 0)], gl = True, requestQueue = [], activeRequests = 1,
       onChunkReady = True,
       heap = [\<lparr> x_pos = 0, y_pos = 0, width = 1, height = 1, chunk_x = 0, chunk_y = 0,
                 chunk_id = ''0_0'', status = REQUESTING, data = None, texture = None,
                 lastAccessed = 0 \<rparr>],
       suspended = [(0, AwaitInvoke)], clock = 0, textures_created = 0, uploads = [],
       deleted = [] \<rparr>"
  by (simp add: run_one_request_def run_initialized_def run_eval)

lemma run_full_slots_state:
  "run run_full_slots =
     \<lparr> chunks = [(''0_0'', 0), (''1_0'', 1), (''0_1'', 2), (''1_1'', 3)], gl = True,
       requestQueue = [''1_1''], activeRequests = 3, onChunkReady = False,
       heap = [\<lparr> x_pos = 0, y_pos = 0, width = 1, height = 1, chunk_x = 0, chunk_y = 0,
                 chunk_id = ''0_0'', status = REQUESTING, data = None, texture = None,
                 lastAccessed = 0 \<rparr>,
               \<lparr> x_pos = 1, y_pos = 0, width = 1, height = 1, chunk_x = 1, chunk_y = 0,
                 chunk_id = ''1_0'', status = REQUESTING, data = None, texture = None,
                 lastAccessed = 0 \<rparr>,
               \<lparr> x_pos = 0, y_pos = 1, width = 1, height = 1, chunk_x = 0, chunk_y = 1,
                 chunk_id = ''0_1'', status = REQUESTING, data = None, texture = None,
                 lastAccessed = 0 \<rparr>,
               \<lparr> x_pos = 1, y_pos = 1, width = 1, height = 1, chunk_x = 1, chunk_y = 1,
                 chunk_id = ''1_1'', status = UNREQUESTED, data = None, texture = None,
                 lastAccessed = 0 \<rparr>],
       suspended = [(0, AwaitInvoke), (1, AwaitInvoke), (2, AwaitInvoke)], clock = 0,
       textures_created = 0, uploads = [], deleted = [] \<rparr>"
  by (simp add: run_full_slots_def run_eval)

subsection \<open>The cap on outstanding requests\<close>

lemma remove_nth_length:
  "i < length xs \<Longrightarrow> int (length (take i xs @ drop (Suc i) xs)) = int (length xs) - 1"
  by auto

lemma processQueue_balanced:
  "int (length (suspended s)) = activeRequests s
   \<Longrightarrow> int (length (suspended (processQueue s))) = activeRequests (processQueue s)"
  unfolding processQueue_def
  by (auto simp: Let_def split: list.splits option.splits)

lemma processQueue_finally_balanced:
  assumes "int (length (suspended s)) = activeRequests s" and "i < length (suspended s)"
  shows "int (length (suspended (processQueue_finally i s)))
           = activeRequests (processQueue_finally i s)"
  unfolding processQueue_finally_def
  by (rule processQueue_balanced) (use assms in \<open>simp add: remove_nth_length\<close>)

lemma step_balanced:
  assumes "int (length (suspended s)) = activeRequests s" and "e \<noteq> Cleanup"
  shows "int (length (suspended (step e s))) = activeRequests (step e s)"
proof (cases e)
  case (RequestChunk chunkId)
  then show ?thesis
    using assms(1)
    by (auto simp: requestChunk_def Let_def intro!: processQueue_balanced split: option.splits)
next
  case (InvokeSettled i rawData g)
  show ?thesis
  proof (cases "i < length (suspended s) \<and> snd (suspended s ! i) = AwaitInvoke")
    case False
    then show ?thesis using assms(1) InvokeSettled by (auto simp: invokeSettled_def)
  next
    case True
    show ?thesis
    proof (cases "processQueue_try rawData g (fst (suspended s ! i)) s")
      case (Inl err)
      have "int (length (suspended (processQueue_finally i (processQueue_catch (fst (suspended s ! i)) s))))
          = activeRequests (processQueue_finally i (processQueue_catch (fst (suspended s ! i)) s))"
        by (rule processQueue_finally_balanced)
           (use assms(1) True in \<open>simp_all add: processQueue_catch_def\<close>)
      then show ?thesis using True Inl InvokeSettled by (simp add: invokeSettled_def)
    next
      case (Inr s')
      then show ?thesis
        using True InvokeSettled assms(1) processQueue_try_fields [OF Inr]
        by (simp add: invokeSettled_def)
    qed
  qed
next
  case (UploadAwaited i)
  then show ?thesis
    using assms(1) by (auto simp: uploadAwaited_def intro!: processQueue_finally_balanced)
qed (use assms in simp_all)

lemma run_balanced:
  "Cleanup \<notin> set es \<Longrightarrow> int (length (suspended (run es))) = activeRequests (run es)"
proof (induction es rule: rev_induct)
  case Nil
  show ?case by (simp add: run_def new_ChunkManager_def)
next
  case (snoc e es)
  then have "int (length (suspended (run es))) = activeRequests (run es)" and "e \<noteq> Cleanup"
    by auto
  then show ?case unfolding run_snoc by (rule step_balanced)
qed

lemma processQueue_starts_below_cap:
  "length (suspended (processQueue s)) > length (suspended s)
   \<Longrightarrow> activeRequests s < maxConcurrentRequests"
  unfolding processQueue_def
  by (auto simp: Let_def split: if_splits list.splits option.splits)

text \<open>
  What holds of the counter. After every run \<open>activeRequests\<close> is at most
  \<open>maxConcurrentRequests\<close>, which is 3; \<open>processQueue\<close> starts a request (suspends a new
  activation) only in a state where the counter is below the cap. As long as \<open>cleanup\<close>
  has not been called, the counter is the number of suspended activations, that is, of
  requests in flight, so that these are at most 3 as well.
\<close>

lemma active_requests_capped:
  "activeRequests (run es) \<le> maxConcurrentRequests
   \<and> maxConcurrentRequests = 3
   \<and> (Cleanup \<notin> set es \<longrightarrow> int (length (suspended (run es))) = activeRequests (run es))
   \<and> (length (suspended (processQueue s)) > length (suspended s)
        \<longrightarrow> activeRequests s < maxConcurrentRequests)"
  using run_invariant [of es] run_balanced [of es] processQueue_starts_below_cap [of s]
  by (simp add: invariant_def maxConcurrentRequests_def)

lemma active_requests_capped_example:
  "Cleanup \<notin> set run_full_slots
   \<and> int (length (suspended (run run_full_slots))) = activeRequests (run run_full_slots)
   \<and> activeRequests (run run_full_slots) = 3
   \<and> length (suspended (processQueue ((run run_initialized)\<lparr>requestQueue := [''0_0'']\<rparr>)))
       > length (suspended ((run run_initialized)\<lparr>requestQueue := [''0_0'']\<rparr>))
   \<and> activeRequests ((run run_initialized)\<lparr>requestQueue := [''0_0'']\<rparr>) < maxConcurrentRequests"
proof -
  have 1: "Cleanup \<notin> set run_full_slots" by (simp add: run_full_slots_def)
  have 2: "activeRequests (run run_full_slots) = 3" by (simp add: run_full_slots_state)
  have 3: "length (suspended (processQueue ((run run_initialized)\<lparr>requestQueue := [''0_0'']\<rparr>)))
       > length (suspended ((run run_initialized)\<lparr>requestQueue := [''0_0'']\<rparr>))"
    by (simp add: run_initialized_def run_eval)
  from active_requests_capped
    [of run_full_slots "(run run_initialized)\<lparr>requestQueue := [''0_0'']\<rparr>"] 1 2 3
  show ?thesis by simp
qed

text \<open>
  Claim C6 says that in every reachable state the number of outstanding chunk requests
  is at most 3. The counter is meant to be that number, and the guard of \<open>processQueue\<close>
  compares it with the cap; but \<open>cleanup\<close> sets the counter to 0 while the fetches it
  counted are still pending. With three fetches pending at \<open>cleanup\<close>, three more are
  started at once by the next three requests: six fetches are outstanding while the
  counter says 3. When the three pending fetches settle, their \<open>finally\<close> blocks take the
  counter to -3, and six requests of the next image are then all started.
\<close>

theorem cleanup_breaks_cap:
  "activeRequests (run run_cleanup_pending) = 0
   \<and> suspended (run run_cleanup_pending) = [(0, AwaitInvoke), (1, AwaitInvoke), (2, AwaitInvoke)]
   \<and> activeRequests (run run_cleanup_then_reload) = 3
   \<and> suspended (run run_cleanup_then_reload) =
        [(0, AwaitInvoke), (1, AwaitInvoke), (2, AwaitInvoke),
         (3, AwaitInvoke), (4, AwaitInvoke), (5, AwaitInvoke)]
   \<and> activeRequests (run run_cleanup_then_settle) = - 3
   \<and> suspended (run run_cleanup_then_settle) = []
   \<and> activeRequests (run run_cleanup_then_six) = 3
   \<and> requestQueue (run run_cleanup_then_six) = []
   \<and> suspended (run run_cleanup_then_six) =
        [(3, AwaitInvoke), (4, AwaitInvoke), (5, AwaitInvoke),
         (6, AwaitInvoke), (7, AwaitInvoke), (8, AwaitInvoke)]
   \<and> \<not> int (length (suspended (run run_cleanup_then_six))) \<le> maxConcurrentRequests"
  by (simp add: run_cleanup_then_six_def run_cleanup_then_settle_def run_cleanup_then_reload_def
      run_cleanup_pending_def run_eval)

subsection \<open>What one resumption does to the chunk\<close>

lemma updateStatus_simps [simp]:
  "updateStatus now REQUESTING c = c\<lparr>status := REQUESTING\<rparr>"
  "updateStatus now ERROR c = c\<lparr>status := ERROR\<rparr>"
  "updateStatus now IN_CPU c = c\<lparr>status := IN_CPU, lastAccessed := now\<rparr>"
  "updateStatus now IN_GPU c = c\<lparr>status := IN_GPU, lastAccessed := now\<rparr>"
  by (simp_all add: updateStatus_def)

lemma parseChunkData_eq:
  "parseChunkData chunkData =
     (if length chunkData < 8 then Inl (DataTooShort (length chunkData))
      else if length chunkData - 8 \<noteq> be_u32 chunkData 0 * be_u32 chunkData 4 * 4
      then Inl (SizeMismatch (be_u32 chunkData 0 * be_u32 chunkData 4 * 4) (length chunkData - 8))
      else Inr (be_u32 chunkData 0, be_u32 chunkData 4, drop 8 chunkData))"
  by (simp add: parseChunkData_def getUint32_def Let_def)

lemma uploadChunkToGPU_other:
  "r' \<noteq> r \<Longrightarrow> heap (uploadChunkToGPU g r s) ! r' = heap s ! r'"
  by (simp add: uploadChunkToGPU_def Let_def setTexture_def split: gl_behaviour.splits)

lemma uploadChunkToGPU_same:
  assumes "r < length (heap s)"
  shows "heap (uploadChunkToGPU g r s) ! r =
     (if \<not> gl s \<or> data (heap s ! r) = None then heap s ! r
      else if g = CreateTextureNull \<or> g = GlCallThrows then (heap s ! r)\<lparr>status := ERROR\<rparr>
      else if g = CallbackThrows \<and> onChunkReady s
      then (heap s ! r)\<lparr>texture := Some (textures_created s), status := ERROR,
                         lastAccessed := clock s\<rparr>
      else (heap s ! r)\<lparr>texture := Some (textures_created s), status := IN_GPU,
                         lastAccessed := clock s\<rparr>)"
  using assms
  by (cases g) (simp_all add: uploadChunkToGPU_def Let_def setTexture_def)

lemma processQueue_try_Bytes:
  "processQueue_try (Bytes chunkData) g r s =
     (case parseChunkData chunkData of
        Inl e \<Rightarrow> Inl e
      | Inr (w, h, pixels) \<Rightarrow>
          Inr (uploadChunkToGPU g r
                 (s\<lparr>heap := (heap s)[r := (heap s ! r)\<lparr>width := w, height := h,
                         data := Some pixels, status := IN_CPU, lastAccessed := clock s\<rparr>]\<rparr>)))"
  by (cases "r < length (heap s)")
     (simp_all add: processQueue_try_def update_chunk_def setData_def Let_def list_update_beyond
        split: sum.splits prod.splits)

lemma suspended_ref_in_range:
  assumes "i < length (suspended (run es))" and "suspended (run es) ! i = (r, a)"
  shows "r < length (heap (run es))"
proof -
  have "(r, a) \<in> set (suspended (run es))" using assms by (metis nth_mem)
  then show ?thesis using run_invariant [of es] by (auto simp: invariant_def refs_ok_def)
qed

text \<open>
  Claim C10. When the blob passes the framing check, the chunk's \<open>width\<close> and \<open>height\<close>
  are the two header fields of the blob after the activation has run, whatever the
  metadata declared and whatever the GPU upload does afterwards; with a GL context that
  accepts the upload the chunk is then \<open>IN_GPU\<close>.
\<close>

theorem blob_dimensions_override:
  assumes "i < length (suspended (run es))" and "suspended (run es) ! i = (r, AwaitInvoke)"
    and "parseChunkData chunkData = Inr (w, h, pixels)"
  shows "w = be_u32 chunkData 0 \<and> h = be_u32 chunkData 4
       \<and> width (heap (invokeSettled i (Bytes chunkData) g (run es)) ! r) = w
       \<and> height (heap (invokeSettled i (Bytes chunkData) g (run es)) ! r) = h
       \<and> (gl (run es) \<and> g = GlOk
            \<longrightarrow> status (heap (invokeSettled i (Bytes chunkData) g (run es)) ! r) = IN_GPU)"
proof -
  have r: "r < length (heap (run es))" using assms(1,2) by (rule suspended_ref_in_range)
  have wh: "w = be_u32 chunkData 0 \<and> h = be_u32 chunkData 4"
    using assms(3) by (simp add: parseChunkData_eq split: if_splits)
  show ?thesis
    using assms r wh
    by (simp add: invokeSettled_def processQueue_try_Bytes uploadChunkToGPU_same)
qed

theorem blob_dimensions_override_witness:
  "0 < length (suspended (run run_one_request))
   \<and> suspended (run run_one_request) ! 0 = (0, AwaitInvoke)
   \<and> parseChunkData blob_2x1 = Inr (2, 1, drop 8 blob_2x1)
   \<and> width (heap (run run_one_request) ! 0) = 1
   \<and> width (heap (invokeSettled 0 (Bytes blob_2x1) GlOk (run run_one_request)) ! 0) = 2
   \<and> height (heap (invokeSettled 0 (Bytes blob_2x1) GlOk (run run_one_request)) ! 0) = 1
   \<and> status (heap (invokeSettled 0 (Bytes blob_2x1) GlOk (run run_one_request)) ! 0) = IN_GPU"
proof -
  have 1: "0 < length (suspended (run run_one_request))"
    and 2: "suspended (run run_one_request) ! 0 = (0, AwaitInvoke)"
    and 3: "width (heap (run run_one_request) ! 0) = 1"
    and 4: "gl (run run_one_request)"
    by (simp_all add: run_one_request_state)
  have 5: "parseChunkData blob_2x1 = Inr (2, 1, drop 8 blob_2x1)"
    by (simp add: parseChunkData_eq be_u32_def blob_2x1_def)
  from blob_dimensions_override [OF 1 2 5, of GlOk] 1 2 3 4 5 show ?thesis by simp
qed

text \<open>
  Claim C2 says that the processing of a blob fails, the chunk going to \<open>ERROR\<close>, if and
  only if the blob is shorter than 8 bytes or its payload is not \<open>w * h * 4\<close> bytes long.
  A well-framed blob also ends in \<open>ERROR\<close> when the upload that follows fails: here
  \<open>createTexture\<close> returns null.
\<close>

theorem framing_iff_counterexample:
  "\<not> length blob_1x1 < 8
   \<and> length blob_1x1 - 8 = be_u32 blob_1x1 0 * be_u32 blob_1x1 4 * 4
   \<and> status (heap (run run_texture_null) ! 0) = ERROR"
  by (simp add: run_texture_null_def run_one_request_def run_initialized_def run_eval)

text \<open>
  Claim C2, amended. The \<open>try\<close> block throws on a blob if and only if the blob is shorter
  than 8 bytes or its length minus 8 differs from \<open>w * h * 4\<close>, with \<open>w\<close> and \<open>h\<close> the
  big-endian unsigned 32-bit integers at offsets 0 and 4, and the \<open>catch\<close> block then sets
  the chunk to \<open>ERROR\<close>. When both checks pass, the chunk holds the pixel array of exactly
  \<open>w * h * 4\<close> bytes, and it is in \<open>ERROR\<close> afterwards if and only if the GPU upload fails
  (the context is set and \<open>createTexture\<close> returns null, a GL call throws, or the ready
  callback throws).
\<close>

theorem chunk_blob_framing:
  assumes "i < length (suspended (run es))" and "suspended (run es) ! i = (r, AwaitInvoke)"
  shows "let s = run es; w = be_u32 chunkData 0; h = be_u32 chunkData 4;
             bad = (length chunkData < 8 \<or> length chunkData - 8 \<noteq> w * h * 4);
             gpu_fails = (gl s \<and> (g = CreateTextureNull \<or> g = GlCallThrows
                                  \<or> (g = CallbackThrows \<and> onChunkReady s)))
         in (isl (processQueue_try (Bytes chunkData) g r s) \<longleftrightarrow> bad)
          \<and> (isl (parseChunkData chunkData) \<longleftrightarrow> bad)
          \<and> status (heap (processQueue_catch r s) ! r) = ERROR
          \<and> (case processQueue_try (Bytes chunkData) g r s of
                Inl e \<Rightarrow> bad
              | Inr s' \<Rightarrow>
                  parseChunkData chunkData = Inr (w, h, drop 8 chunkData)
                \<and> data (heap s' ! r) = Some (drop 8 chunkData)
                \<and> length (drop 8 chunkData) = w * h * 4
                \<and> (status (heap s' ! r) = ERROR \<longleftrightarrow> gpu_fails)
                \<and> (\<not> gpu_fails \<longrightarrow> status (heap s' ! r) = (if gl s then IN_GPU else IN_CPU)))"
proof -
  have r: "r < length (heap (run es))" using assms by (rule suspended_ref_in_range)
  show ?thesis
    using r
    by (cases g)
       (simp_all add: Let_def processQueue_try_Bytes parseChunkData_eq processQueue_catch_def
          uploadChunkToGPU_same)
qed

theorem chunk_blob_framing_witness:
  "0 < length (suspended (run run_one_request))
   \<and> suspended (run run_one_request) ! 0 = (0, AwaitInvoke)
   \<and> \<not> isl (processQueue_try (Bytes blob_1x1) GlOk 0 (run run_one_request))
   \<and> \<not> isl (parseChunkData blob_1x1)
   \<and> isl (processQueue_try (Bytes (take 11 blob_1x1)) GlOk 0 (run run_one_request))"
proof -
  have 1: "0 < length (suspended (run run_one_request))"
    and 2: "suspended (run run_one_request) ! 0 = (0, AwaitInvoke)"
    by (simp_all add: run_one_request_state)
  have 3: "\<not> (length blob_1x1 < 8 \<or> length blob_1x1 - 8 \<noteq> be_u32 blob_1x1 0 * be_u32 blob_1x1 4 * 4)"
    by (simp add: be_u32_def blob_1x1_def)
  have 4: "length (take 11 blob_1x1) - 8 \<noteq> be_u32 (take 11 blob_1x1) 0 * be_u32 (take 11 blob_1x1) 4 * 4"
    by (simp add: be_u32_def blob_1x1_def)
  from chunk_blob_framing [OF 1 2, of blob_1x1 GlOk]
    chunk_blob_framing [OF 1 2, of "take 11 blob_1x1" GlOk] 1 2 3 4
  show ?thesis by (simp add: Let_def)
qed

subsection \<open>Repeated requests\<close>

lemma chunk_key_facts:
  assumes "map_of (chunks (run es)) chunkId = Some r"
  shows "r < length (heap (run es))" and "chunkId \<noteq> []"
proof -
  have "(chunkId, r) \<in> set (chunks (run es))" using assms by (rule map_of_SomeD)
  then show "r < length (heap (run es))" and "chunkId \<noteq> []"
    using run_invariant [of es] by (auto simp: invariant_def refs_ok_def)
qed

text \<open>
  Claim C3 says that no sequence of \<open>requestChunk\<close> calls makes the manager upload a chunk
  twice. A request for a chunk that is \<open>REQUESTING\<close>, \<open>IN_CPU\<close> or \<open>IN_GPU\<close> is skipped,
  but a chunk waiting in the queue is still \<open>UNREQUESTED\<close>: requested again, it is queued
  again, fetched twice and uploaded twice, into two textures, of which the first is never
  deleted.
\<close>

theorem duplicate_request_uploads_twice:
  "map_of (chunks (run run_duplicate_request)) ''1_1'' = Some 3
   \<and> upload_count 3 (run run_duplicate_request) = 2
   \<and> uploads (run run_duplicate_request) = [(0, 0), (1, 1), (3, 2), (3, 3)]
   \<and> texture (heap (run run_duplicate_request) ! 3) = Some 3
   \<and> deleted (run run_duplicate_request) = []"
  by (simp add: run_duplicate_request_def run_eval)

text \<open>
  Claim C8 says that \<open>ERROR\<close> is terminal. After a rejected fetch the chunk is in \<open>ERROR\<close>;
  the next \<open>requestChunk\<close> for it starts a new request and the chunk is \<open>REQUESTING\<close>.
\<close>

theorem error_terminal_counterexample:
  "status (heap (run run_fetch_rejected) ! 0) = ERROR
   \<and> suspended (run run_fetch_rejected) = []
   \<and> status (heap (run (run_fetch_rejected @ [RequestChunk ''0_0''])) ! 0) = REQUESTING
   \<and> suspended (run (run_fetch_rejected @ [RequestChunk ''0_0''])) = [(0, AwaitInvoke)]"
  by (simp add: run_fetch_rejected_def run_one_request_def run_initialized_def run_eval)

text \<open>
  Claim C8, amended. \<open>ERROR\<close> is not terminal. \<open>requestChunk\<close> skips a chunk that is
  \<open>REQUESTING\<close>, \<open>IN_CPU\<close> or \<open>IN_GPU\<close> and nothing else: called for a chunk in \<open>ERROR\<close> it
  appends the id to the queue and runs \<open>processQueue\<close>, after which the id is waiting in
  the queue or the chunk has left \<open>ERROR\<close> for \<open>REQUESTING\<close> with a new request in flight;
  the latter whenever a slot is free and nothing else is queued.
\<close>

theorem error_not_terminal:
  assumes "map_of (chunks (run es)) chunkId = Some r"
  shows "let s = run es; s' = requestChunk chunkId s
         in (status (heap s ! r) = REQUESTING \<or> status (heap s ! r) = IN_CPU
               \<or> status (heap s ! r) = IN_GPU \<longrightarrow> s' = s)
          \<and> (status (heap s ! r) = ERROR \<longrightarrow>
                (chunkId \<in> set (requestQueue s')
                   \<or> status (heap s' ! r) = REQUESTING \<and> (r, AwaitInvoke) \<in> set (suspended s'))
              \<and> (activeRequests s < maxConcurrentRequests \<and> requestQueue s = [] \<longrightarrow>
                    status (heap s' ! r) = REQUESTING
                  \<and> suspended s' = suspended s @ [(r, AwaitInvoke)]
                  \<and> activeRequests s' = activeRequests s + 1))"
proof -
  note k = chunk_key_facts [OF assms]
  have skip: "status (heap (run es) ! r) = REQUESTING \<or> status (heap (run es) ! r) = IN_CPU
      \<or> status (heap (run es) ! r) = IN_GPU \<Longrightarrow> requestChunk chunkId (run es) = run es"
    using assms by (auto simp: requestChunk_def)
  have queued: "chunkId \<in> set (requestQueue (requestChunk chunkId (run es)))
      \<or> status (heap (requestChunk chunkId (run es)) ! r) = REQUESTING
        \<and> (r, AwaitInvoke) \<in> set (suspended (requestChunk chunkId (run es)))"
    if "status (heap (run es) ! r) = ERROR"
  proof (cases "requestQueue (run es)")
    case Nil
    then show ?thesis
      using that assms k
      by (simp add: requestChunk_def processQueue_def Let_def)
  next
    case (Cons a q)
    then show ?thesis
      using that assms
      by (simp add: requestChunk_def processQueue_def Let_def split: option.splits)
  qed
  have started: "status (heap (requestChunk chunkId (run es)) ! r) = REQUESTING
      \<and> suspended (requestChunk chunkId (run es)) = suspended (run es) @ [(r, AwaitInvoke)]
      \<and> activeRequests (requestChunk chunkId (run es)) = activeRequests (run es) + 1"
    if "status (heap (run es) ! r) = ERROR" "activeRequests (run es) < maxConcurrentRequests"
      "requestQueue (run es) = []"
    using that assms k by (simp add: requestChunk_def processQueue_def Let_def)
  show ?thesis
    unfolding Let_def using skip queued started by blast
qed

theorem error_not_terminal_witness:
  "map_of (chunks (run run_fetch_rejected)) ''0_0'' = Some 0
   \<and> status (heap (run run_fetch_rejected) ! 0) = ERROR
   \<and> activeRequests (run run_fetch_rejected) < maxConcurrentRequests
   \<and> requestQueue (run run_fetch_rejected) = []
   \<and> status (heap (requestChunk ''0_0'' (run run_fetch_rejected)) ! 0) = REQUESTING
   \<and> suspended (requestChunk ''0_0'' (run run_fetch_rejected))
       = suspended (run run_fetch_rejected) @ [(0, AwaitInvoke)]"
proof -
  have 1: "map_of (chunks (run run_fetch_rejected)) ''0_0'' = Some 0"
    and 2: "status (heap (run run_fetch_rejected) ! 0) = ERROR"
    and 3: "activeRequests (run run_fetch_rejected) < maxConcurrentRequests"
    and 4: "requestQueue (run run_fetch_rejected) = []"
    by (simp_all add: run_fetch_rejected_def run_one_request_def run_initialized_def run_eval)
  from error_not_terminal [OF 1] 1 2 3 4 show ?thesis by (simp add: Let_def)
qed

subsection \<open>Textures\<close>

lemma cleanup_chunk_heap:
  "heap (cleanup_chunk a s) = (heap s)[a := fst (ImageChunk_cleanup (heap s ! a))]"
  "deleted (cleanup_chunk a s) = deleted s @ snd (ImageChunk_cleanup (heap s ! a))"
  by (simp_all add: cleanup_chunk_def split_beta)

lemma fold_cleanup_chunk_deleted:
  "t \<in> set (deleted s) \<Longrightarrow> t \<in> set (deleted (fold cleanup_chunk rs s))"
  by (induction rs arbitrary: s) (simp_all add: cleanup_chunk_heap)

lemma fold_cleanup_chunk_stays:
  assumes "status (heap s ! r) = UNREQUESTED \<and> texture (heap s ! r) = None"
  shows "status (heap (fold cleanup_chunk rs s) ! r) = UNREQUESTED
       \<and> texture (heap (fold cleanup_chunk rs s) ! r) = None"
  using assms
proof (induction rs arbitrary: s)
  case Nil
  then show ?case by simp
next
  case (Cons a rs)
  have "status (heap (cleanup_chunk a s) ! r) = UNREQUESTED
      \<and> texture (heap (cleanup_chunk a s) ! r) = None"
    using Cons.prems
    by (cases "a < length (heap s)")
       (simp_all add: cleanup_chunk_heap nth_list_update list_update_beyond ImageChunk_cleanup_def)
  then show ?case using Cons.IH [of "cleanup_chunk a s"] by simp
qed

lemma fold_cleanup_chunk_cleans:
  assumes "r \<in> set rs" and "r < length (heap s)"
  shows "status (heap (fold cleanup_chunk rs s) ! r) = UNREQUESTED
       \<and> texture (heap (fold cleanup_chunk rs s) ! r) = None
       \<and> (\<forall>t. texture (heap s ! r) = Some t \<longrightarrow> t \<in> set (deleted (fold cleanup_chunk rs s)))"
  using assms
proof (induction rs arbitrary: s)
  case Nil
  then show ?case by simp
next
  case (Cons a rs)
  show ?case
  proof (cases "a = r")
    case True
    have c: "status (heap (cleanup_chunk r s) ! r) = UNREQUESTED
           \<and> texture (heap (cleanup_chunk r s) ! r) = None"
      using Cons.prems(2) by (simp add: cleanup_chunk_heap ImageChunk_cleanup_def)
    have d: "texture (heap s ! r) = Some t \<Longrightarrow> t \<in> set (deleted (cleanup_chunk r s))" for t
      by (simp add: cleanup_chunk_heap ImageChunk_cleanup_def)
    show ?thesis
      using True fold_cleanup_chunk_stays [OF c, of rs] d fold_cleanup_chunk_deleted
      by auto
  next
    case False
    then have "r \<in> set rs" using Cons.prems(1) by simp
    moreover have "r < length (heap (cleanup_chunk a s))" using Cons.prems(2) by simp
    moreover have "heap (cleanup_chunk a s) ! r = heap s ! r"
      using False by (simp add: cleanup_chunk_heap)
    ultimately show ?thesis using Cons.IH [of "cleanup_chunk a s"] by simp
  qed
qed

text \<open>Where the \<open>texture\<close> field of a chunk object is written.\<close>

lemma texture_ops:
  "texture (updateStatus now st c) = texture c"
  "texture (setData now d c) = texture c"
  "texture (c\<lparr>width := w, height := h\<rparr>) = texture c"
  "texture (new_ImageChunk now ci) = None"
  by (simp_all add: updateStatus_def setData_def new_ImageChunk_def Let_def)

lemma texture_nth_update:
  "texture v = texture (xs ! r) \<Longrightarrow> texture (xs[r := v] ! r') = texture (xs ! r')"
  by (cases "r < length xs"; cases "r' = r") (simp_all add: list_update_beyond)

lemma processQueue_texture: "texture (heap (processQueue s) ! r) = texture (heap s ! r)"
  unfolding processQueue_def
  by (simp add: Let_def texture_nth_update split: list.splits option.splits)

lemma requestChunk_texture: "texture (heap (requestChunk chunkId s) ! r) = texture (heap s ! r)"
  by (simp add: requestChunk_def Let_def processQueue_texture split: option.splits)

lemma processQueue_finally_texture:
  "texture (heap (processQueue_finally i s) ! r) = texture (heap s ! r)"
  by (simp add: processQueue_finally_def processQueue_texture)

lemma processQueue_finally_uploads: "uploads (processQueue_finally i s) = uploads s"
  by (simp add: processQueue_finally_def processQueue_def Let_def
      split: list.splits option.splits)

lemma initializeChunks_old_objects:
  "r < length (heap s) \<Longrightarrow> heap (initializeChunks infos s) ! r = heap s ! r"
proof (induction infos arbitrary: s)
  case Nil
  show ?case by simp
next
  case (Cons ci infos)
  let ?s = "s\<lparr>heap := heap s @ [new_ImageChunk (clock s) ci],
              chunks := AList.update (chunk_id (new_ImageChunk (clock s) ci)) (length (heap s))
                          (chunks s)\<rparr>"
  have "heap (initializeChunks infos ?s) ! r = heap ?s ! r"
    by (rule Cons.IH) (use Cons.prems in simp)
  then show ?case using Cons.prems by (simp add: Let_def nth_append)
qed

lemma fold_cleanup_chunk_texture:
  "texture (heap (fold cleanup_chunk rs s) ! r) = texture (heap s ! r)
   \<or> texture (heap (fold cleanup_chunk rs s) ! r) = None"
proof (induction rs arbitrary: s)
  case Nil
  show ?case by simp
next
  case (Cons a rs)
  have "texture (heap (cleanup_chunk a s) ! r) = texture (heap s ! r)
      \<or> texture (heap (cleanup_chunk a s) ! r) = None"
    by (cases "a < length (heap s)"; cases "a = r")
       (simp_all add: cleanup_chunk_heap ImageChunk_cleanup_def list_update_beyond)
  then show ?case using Cons [of "cleanup_chunk a s"] by auto
qed

lemma cleanup_texture:
  "texture (heap (cleanup s) ! r) = texture (heap s ! r) \<or> texture (heap (cleanup s) ! r) = None"
  using fold_cleanup_chunk_texture [of "map snd (chunks s)" s r]
  by (simp add: cleanup_def Let_def)

text \<open>
  The one place where a texture is stored: \<open>uploadChunkToGPU\<close>, in the chunk it is called
  for, the handle being the one \<open>createTexture\<close> has just returned.
\<close>

lemma uploadChunkToGPU_texture:
  "texture (heap (uploadChunkToGPU g r s) ! r') = texture (heap s ! r')
   \<or> r' = r \<and> gl s \<and> (g = GlOk \<or> g = CallbackThrows)
     \<and> heap (uploadChunkToGPU g r s) ! r' =
         (if g = CallbackThrows \<and> onChunkReady s
          then (setTexture (clock s) (textures_created s) (heap s ! r))\<lparr>status := ERROR\<rparr>
          else setTexture (clock s) (textures_created s) (heap s ! r))
     \<and> uploads (uploadChunkToGPU g r s) = uploads s @ [(r, textures_created s)]"
proof (cases "r' = r \<and> r < length (heap s)")
  case False
  then have "texture (heap (uploadChunkToGPU g r s) ! r') = texture (heap s ! r')"
    by (cases "r < length (heap s)")
       (auto simp: uploadChunkToGPU_def Let_def setTexture_def list_update_beyond
          split: gl_behaviour.splits)
  then show ?thesis by simp
next
  case True
  then show ?thesis
    by (cases g) (simp_all add: uploadChunkToGPU_def Let_def setTexture_def)
qed

lemma invokeSettled_texture:
  "texture (heap (invokeSettled i rawData g s) ! r') = texture (heap s ! r')
   \<or> gl s \<and> (g = GlOk \<or> g = CallbackThrows)
     \<and> (\<exists>c. heap (invokeSettled i rawData g s) ! r' =
         (if g = CallbackThrows \<and> onChunkReady s
          then (setTexture (clock s) (textures_created s) c)\<lparr>status := ERROR\<rparr>
          else setTexture (clock s) (textures_created s) c))
     \<and> uploads (invokeSettled i rawData g s) = uploads s @ [(r', textures_created s)]"
proof (cases "i < length (suspended s) \<and> snd (suspended s ! i) = AwaitInvoke")
  case False
  then show ?thesis by (auto simp: invokeSettled_def)
next
  case True
  let ?r = "fst (suspended s ! i)"
  show ?thesis
  proof (cases "processQueue_try rawData g ?r s")
    case (Inl e)
    then have "texture (heap (invokeSettled i rawData g s) ! r') = texture (heap s ! r')"
      using True
      by (simp add: invokeSettled_def processQueue_finally_texture processQueue_catch_def
          texture_nth_update)
    then show ?thesis by simp
  next
    case (Inr s')
    obtain chunkData where raw: "rawData = Bytes chunkData"
      using Inr by (cases rawData) (simp_all add: processQueue_try_def)
    obtain w h pixels where p: "parseChunkData chunkData = Inr (w, h, pixels)"
      using Inr raw by (cases "parseChunkData chunkData") (auto simp: processQueue_try_Bytes)
    let ?s0 = "s\<lparr>heap := (heap s)[?r := (heap s ! ?r)\<lparr>width := w, height := h,
              data := Some pixels, status := IN_CPU, lastAccessed := clock s\<rparr>]\<rparr>"
    have s': "s' = uploadChunkToGPU g ?r ?s0"
      using Inr raw p by (simp add: processQueue_try_Bytes)
    have t0: "texture (heap ?s0 ! r') = texture (heap s ! r')"
      by (simp add: texture_nth_update)
    have h: "heap (invokeSettled i rawData g s) = heap s'"
      and u: "uploads (invokeSettled i rawData g s) = uploads s'"
      using True Inr by (simp_all add: invokeSettled_def)
    show ?thesis
      using uploadChunkToGPU_texture [of g ?r ?s0 r'] t0
      unfolding h u s' by auto
  qed
qed

lemma step_texture:
  assumes "r < length (heap s)"
  shows "texture (heap (step e s) ! r) = texture (heap s ! r)
       \<or> e = Cleanup \<and> texture (heap (step e s) ! r) = None
       \<or> (\<exists>i rawData g c. e = InvokeSettled i rawData g \<and> gl s
             \<and> (g = GlOk \<or> g = CallbackThrows)
             \<and> heap (step e s) ! r =
                 (if g = CallbackThrows \<and> onChunkReady s
                  then (setTexture (clock s) (textures_created s) c)\<lparr>status := ERROR\<rparr>
                  else setTexture (clock s) (textures_created s) c)
             \<and> uploads (step e s) = uploads s @ [(r, textures_created s)])"
proof (cases e)
  case (InitializeChunks infos)
  then show ?thesis using initializeChunks_old_objects [OF assms, of infos] by simp
next
  case (RequestChunk chunkId)
  then show ?thesis by (simp add: requestChunk_texture)
next
  case (InvokeSettled i rawData g)
  then show ?thesis using invokeSettled_texture [of i rawData g s r] by auto
next
  case (UploadAwaited i)
  then show ?thesis by (simp add: uploadAwaited_def processQueue_finally_texture)
next
  case Cleanup
  then show ?thesis using cleanup_texture [of s r] by auto
qed simp_all

text \<open>
  Claim C4 says that a chunk holds a texture only while it is \<open>IN_GPU\<close>, and that a
  transition to \<open>ERROR\<close> releases the texture. \<open>updateStatus\<close> only writes the status.
  When the ready callback throws after the upload, the chunk is set to \<open>ERROR\<close> and keeps
  its texture; when a second request for a chunk fails after the first one has uploaded
  it, the same. No texture is deleted.
\<close>

theorem texture_only_in_gpu_counterexample:
  "status (heap (run run_callback_throws) ! 0) = ERROR
   \<and> texture (heap (run run_callback_throws) ! 0) = Some 0
   \<and> deleted (run run_callback_throws) = []
   \<and> status (heap (run run_duplicate_then_rejected) ! 3) = ERROR
   \<and> texture (heap (run run_duplicate_then_rejected) ! 3) = Some 2
   \<and> deleted (run run_duplicate_then_rejected) = []"
  by (simp add: run_callback_throws_def run_one_request_def run_initialized_def
      run_duplicate_then_rejected_def run_duplicate_request_def run_eval)

text \<open>
  Claim C4, amended. After every run a chunk that is \<open>UNREQUESTED\<close> holds no texture (and
  no pixels) and a chunk that is \<open>IN_GPU\<close> holds one. A texture is stored only by
  \<open>setTexture\<close>, together with the status \<open>IN_GPU\<close>: a new chunk holds none, \<open>setData\<close>,
  the writes of \<open>width\<close> and \<open>height\<close> and \<open>updateStatus\<close> leave the field alone, and an
  event of a run changes the texture of a chunk object only by clearing it in \<open>cleanup\<close>
  or by the \<open>setTexture\<close> of an upload, which stores the handle just created (the ready
  callback, if it throws, then sets the status to \<open>ERROR\<close>). The transition back to
  \<open>UNREQUESTED\<close>, \<open>ImageChunk.cleanup\<close>, deletes and clears the texture the chunk held,
  and \<open>ChunkManager.cleanup\<close> does so for every chunk of the map when the GL context is
  set. A transition to \<open>ERROR\<close> or to \<open>REQUESTING\<close> writes the status only: it releases
  nothing.
\<close>

theorem texture_lifecycle:
  "(\<forall>c \<in> set (heap (run es)).
       (status c = UNREQUESTED \<longrightarrow> texture c = None \<and> data c = None)
     \<and> (status c = IN_GPU \<longrightarrow> texture c \<noteq> None))
   \<and> status (setTexture now t c) = IN_GPU \<and> texture (setTexture now t c) = Some t
   \<and> status (fst (ImageChunk_cleanup c)) = UNREQUESTED
   \<and> texture (fst (ImageChunk_cleanup c)) = None
   \<and> snd (ImageChunk_cleanup c) = (case texture c of None \<Rightarrow> [] | Some t' \<Rightarrow> [t'])
   \<and> (gl (run es) \<longrightarrow>
        (\<forall>p \<in> set (chunks (run es)).
            status (heap (cleanup (run es)) ! snd p) = UNREQUESTED
          \<and> texture (heap (cleanup (run es)) ! snd p) = None
          \<and> (\<forall>t'. texture (heap (run es) ! snd p) = Some t'
                 \<longrightarrow> t' \<in> set (deleted (cleanup (run es))))))
   \<and> updateStatus now ERROR c = c\<lparr>status := ERROR\<rparr>
   \<and> updateStatus now REQUESTING c = c\<lparr>status := REQUESTING\<rparr>
   \<and> texture (new_ImageChunk now ci) = None
   \<and> texture (setData now d c) = texture c
   \<and> texture (c\<lparr>width := w, height := h\<rparr>) = texture c
   \<and> texture (updateStatus now st c) = texture c
   \<and> (\<forall>r < length (heap (run es)).
         texture (heap (step e (run es)) ! r) = texture (heap (run es) ! r)
       \<or> e = Cleanup \<and> texture (heap (step e (run es)) ! r) = None
       \<or> (\<exists>i rawData g c'. e = InvokeSettled i rawData g \<and> gl (run es)
             \<and> (g = GlOk \<or> g = CallbackThrows)
             \<and> heap (step e (run es)) ! r =
                 (if g = CallbackThrows \<and> onChunkReady (run es)
                  then (setTexture (clock (run es)) (textures_created (run es)) c')
                         \<lparr>status := ERROR\<rparr>
                  else setTexture (clock (run es)) (textures_created (run es)) c')
             \<and> uploads (step e (run es)) =
                 uploads (run es) @ [(r, textures_created (run es))]))"
proof -
  have inv: "\<forall>c \<in> set (heap (run es)).
       (status c = UNREQUESTED \<longrightarrow> texture c = None \<and> data c = None)
     \<and> (status c = IN_GPU \<longrightarrow> texture c \<noteq> None)"
    using run_invariant [of es] by (simp add: invariant_def heap_ok_def chunk_ok_def)
  have cl: "status (heap (cleanup (run es)) ! snd p) = UNREQUESTED
          \<and> texture (heap (cleanup (run es)) ! snd p) = None
          \<and> (\<forall>t'. texture (heap (run es) ! snd p) = Some t'
                 \<longrightarrow> t' \<in> set (deleted (cleanup (run es))))"
    if "gl (run es)" "p \<in> set (chunks (run es))" for p
  proof -
    have "snd p \<in> set (map snd (chunks (run es)))" using that(2) by simp
    moreover have "snd p < length (heap (run es))"
      using that(2) run_invariant [of es] by (simp add: invariant_def refs_ok_def)
    ultimately show ?thesis
      using fold_cleanup_chunk_cleans [of "snd p" "map snd (chunks (run es))" "run es"] that(1)
      by (simp add: cleanup_def Let_def)
  qed
  have st: "\<forall>r < length (heap (run es)).
         texture (heap (step e (run es)) ! r) = texture (heap (run es) ! r)
       \<or> e = Cleanup \<and> texture (heap (step e (run es)) ! r) = None
       \<or> (\<exists>i rawData g c'. e = InvokeSettled i rawData g \<and> gl (run es)
             \<and> (g = GlOk \<or> g = CallbackThrows)
             \<and> heap (step e (run es)) ! r =
                 (if g = CallbackThrows \<and> onChunkReady (run es)
                  then (setTexture (clock (run es)) (textures_created (run es)) c')
                         \<lparr>status := ERROR\<rparr>
                  else setTexture (clock (run es)) (textures_created (run es)) c')
             \<and> uploads (step e (run es)) =
                 uploads (run es) @ [(r, textures_created (run es))])"
    using step_texture [of _ "run es" e] by blast
  have fn: "status (setTexture now t c) = IN_GPU \<and> texture (setTexture now t c) = Some t
      \<and> status (fst (ImageChunk_cleanup c)) = UNREQUESTED
      \<and> texture (fst (ImageChunk_cleanup c)) = None
      \<and> snd (ImageChunk_cleanup c) = (case texture c of None \<Rightarrow> [] | Some t' \<Rightarrow> [t'])
      \<and> updateStatus now ERROR c = c\<lparr>status := ERROR\<rparr>
      \<and> updateStatus now REQUESTING c = c\<lparr>status := REQUESTING\<rparr>
      \<and> texture (new_ImageChunk now ci) = None
      \<and> texture (setData now d c) = texture c
      \<and> texture (c\<lparr>width := w, height := h\<rparr>) = texture c
      \<and> texture (updateStatus now st c) = texture c"
    by (simp add: setTexture_def ImageChunk_cleanup_def texture_ops)
  show ?thesis
    using inv cl st fn by blast
qed

theorem texture_lifecycle_witness:
  "gl (run run_callback_throws)
   \<and> (''0_0'', 0) \<in> set (chunks (run run_callback_throws))
   \<and> texture (heap (run run_callback_throws) ! 0) = Some 0
   \<and> status (heap (cleanup (run run_callback_throws)) ! 0) = UNREQUESTED
   \<and> texture (heap (cleanup (run run_callback_throws)) ! 0) = None
   \<and> 0 \<in> set (deleted (cleanup (run run_callback_throws)))"
proof -
  have 1: "gl (run run_callback_throws)"
    and 2: "(''0_0'', 0) \<in> set (chunks (run run_callback_throws))"
    and 3: "texture (heap (run run_callback_throws) ! 0) = Some 0"
    by (simp_all add: run_callback_throws_def run_one_request_def run_initialized_def run_eval)
  from texture_lifecycle [of run_callback_throws]
  have "gl (run run_callback_throws) \<longrightarrow>
        (\<forall>p \<in> set (chunks (run run_callback_throws)).
            status (heap (cleanup (run run_callback_throws)) ! snd p) = UNREQUESTED
          \<and> texture (heap (cleanup (run run_callback_throws)) ! snd p) = None
          \<and> (\<forall>t'. texture (heap (run run_callback_throws) ! snd p) = Some t'
                 \<longrightarrow> t' \<in> set (deleted (cleanup (run run_callback_throws)))))"
    by blast
  with 1 2 3 show ?thesis by fastforce
qed

subsection \<open>Settling a request\<close>

lemma queue_head_facts:
  assumes "invariant s" and "requestQueue s = chunkId # rest"
  obtains r1 where "map_of (chunks s) chunkId = Some r1" "r1 < length (heap s)" "chunkId \<noteq> []"
proof -
  from assms have "chunkId \<in> fst ` set (chunks s)"
    by (auto simp: invariant_def refs_ok_def)
  then obtain r1 where m: "map_of (chunks s) chunkId = Some r1"
    by (cases "map_of (chunks s) chunkId") (auto simp: map_of_eq_None_iff)
  then have "(chunkId, r1) \<in> set (chunks s)" by (rule map_of_SomeD)
  then have "r1 < length (heap s)" "chunkId \<noteq> []"
    using assms(1) by (auto simp: invariant_def refs_ok_def)
  with m that show thesis by blast
qed

lemma processQueue_finally_empty_queue:
  assumes "invariant s" and "requestQueue s = []"
  shows "processQueue_finally i s =
     s\<lparr>activeRequests := activeRequests s - 1,
       suspended := take i (suspended s) @ drop (Suc i) (suspended s)\<rparr>"
  using assms by (simp add: processQueue_finally_def processQueue_def)

lemma processQueue_finally_starts_next:
  assumes "invariant s" and "requestQueue s = chunkId # rest"
    and "map_of (chunks s) chunkId = Some r1"
  shows "processQueue_finally i s =
     s\<lparr>heap := (heap s)[r1 := (heap s ! r1)\<lparr>status := REQUESTING\<rparr>],
       requestQueue := rest,
       suspended := take i (suspended s) @ drop (Suc i) (suspended s) @ [(r1, AwaitInvoke)]\<rparr>"
proof -
  have c: "activeRequests s \<le> 3"
    using assms(1) by (simp add: invariant_def maxConcurrentRequests_def)
  obtain r1' where "map_of (chunks s) chunkId = Some r1'" "chunkId \<noteq> []"
    using assms(1,2) by (rule queue_head_facts)
  then show ?thesis
    using assms c
    by (simp add: processQueue_finally_def processQueue_def maxConcurrentRequests_def
        update_chunk_def)
qed

text \<open>
  Claim C7 says that every failure during fetch, parse or GPU upload sets the failing
  chunk to \<open>ERROR\<close>. When no GL context is set, \<open>uploadChunkToGPU\<close> logs an error and
  returns before its \<open>try\<close> block: nothing is uploaded, no texture is stored, and the chunk
  stays \<open>IN_CPU\<close>; the slot is released all the same.
\<close>

theorem upload_failure_counterexample:
  "\<not> gl (run run_no_context)
   \<and> status (heap (run run_no_context) ! 0) = IN_CPU
   \<and> texture (heap (run run_no_context) ! 0) = None
   \<and> uploads (run run_no_context) = []
   \<and> suspended (run run_no_context) = []
   \<and> activeRequests (run run_no_context) = 0"
  by (simp add: run_no_context_def run_no_context_request_def run_eval)

text \<open>
  Claim C7, amended. A request fails with the chunk set to \<open>ERROR\<close> when the \<open>try\<close> block
  throws (the fetch is rejected, the reply is not binary, the blob is badly framed) or
  when, with a GL context set, the upload fails (\<open>createTexture\<close> returns null, a GL call
  throws, the ready callback throws). When the \<open>try\<close> block does not throw and no GL
  context is set, nothing is uploaded and the chunk stays \<open>IN_CPU\<close>. In every case no
  other chunk is touched: \<open>s1\<close> below is the state at that point. Once the activation has
  run to its end (\<open>settled\<close>), its slot is released: if nothing is queued, the counter is
  one less, and otherwise the chunk of the first queued id is set to \<open>REQUESTING\<close>, a new
  activation for it is suspended at the fetch, and the counter is as before. Nothing else
  differs from \<open>s1\<close>; the chunk that is started is the only other chunk whose state
  changes.
\<close>

theorem failure_releases_slot:
  assumes "i < length (suspended (run es))" and "suspended (run es) ! i = (r, AwaitInvoke)"
  shows "let s = run es;
             thrown = isl (processQueue_try rawData g r s);
             upload_fails = (gl s \<and> (g = CreateTextureNull \<or> g = GlCallThrows
                                     \<or> g = CallbackThrows \<and> onChunkReady s));
             s1 = (case processQueue_try rawData g r s of
                     Inl e \<Rightarrow> processQueue_catch r s | Inr s' \<Rightarrow> s');
             settled = (case processQueue_try rawData g r s of
                     Inl e \<Rightarrow> invokeSettled i rawData g s
                   | Inr s' \<Rightarrow> uploadAwaited i (invokeSettled i rawData g s));
             others = take i (suspended s) @ drop (Suc i) (suspended s)
         in (thrown \<or> upload_fails \<longrightarrow> status (heap s1 ! r) = ERROR)
          \<and> (\<not> thrown \<and> \<not> gl s \<longrightarrow>
                status (heap s1 ! r) = IN_CPU \<and> texture (heap s1 ! r) = texture (heap s ! r)
              \<and> uploads s1 = uploads s)
          \<and> (\<forall>r'. r' \<noteq> r \<longrightarrow> heap s1 ! r' = heap s ! r')
          \<and> activeRequests s1 = activeRequests s \<and> requestQueue s1 = requestQueue s
          \<and> chunks s1 = chunks s
          \<and> (case requestQueue s of
                [] \<Rightarrow> settled = s1\<lparr>activeRequests := activeRequests s - 1, suspended := others\<rparr>
              | chunkId # rest \<Rightarrow>
                  (\<exists>r1. map_of (chunks s) chunkId = Some r1 \<and> r1 < length (heap s)
                      \<and> settled = s1\<lparr>heap := (heap s1)[r1 := (heap s1 ! r1)\<lparr>status := REQUESTING\<rparr>],
                                      requestQueue := rest,
                                      suspended := others @ [(r1, AwaitInvoke)]\<rparr>))"
proof -
  let ?s = "run es"
  let ?others = "take i (suspended ?s) @ drop (Suc i) (suspended ?s)"
  have inv: "invariant ?s" by (rule run_invariant)
  have r: "r < length (heap ?s)" using assms(1,2) by (rule suspended_ref_in_range)
  have en: "i < length (suspended ?s) \<and> snd (suspended ?s ! i) = AwaitInvoke"
    and fs: "fst (suspended ?s ! i) = r"
    using assms(1,2) by simp_all
  show ?thesis
  proof (cases "processQueue_try rawData g r ?s")
    case (Inl e)
    let ?s1 = "processQueue_catch r ?s"
    have inv1: "invariant ?s1" using inv by (rule processQueue_catch_invariant)
    have f1: "activeRequests ?s1 = activeRequests ?s" "requestQueue ?s1 = requestQueue ?s"
      "chunks ?s1 = chunks ?s" "suspended ?s1 = suspended ?s"
      "length (heap ?s1) = length (heap ?s)"
      by (simp_all add: processQueue_catch_def)
    have st: "status (heap ?s1 ! r) = ERROR"
      and ot: "\<forall>r'. r' \<noteq> r \<longrightarrow> heap ?s1 ! r' = heap ?s ! r'"
      using r by (simp_all add: processQueue_catch_def)
    have settled: "invokeSettled i rawData g ?s = processQueue_finally i ?s1"
      using en fs Inl by (simp add: invokeSettled_def)
    have q: "(case requestQueue ?s of
                [] \<Rightarrow> invokeSettled i rawData g ?s
                        = ?s1\<lparr>activeRequests := activeRequests ?s - 1, suspended := ?others\<rparr>
              | chunkId # rest \<Rightarrow>
                  (\<exists>r1. map_of (chunks ?s) chunkId = Some r1 \<and> r1 < length (heap ?s)
                      \<and> invokeSettled i rawData g ?s
                          = ?s1\<lparr>heap := (heap ?s1)[r1 := (heap ?s1 ! r1)\<lparr>status := REQUESTING\<rparr>],
                                requestQueue := rest,
                                suspended := ?others @ [(r1, AwaitInvoke)]\<rparr>))"
    proof (cases "requestQueue ?s")
      case Nil
      then show ?thesis
        using processQueue_finally_empty_queue [OF inv1, of i] f1 by (simp add: settled)
    next
      case (Cons chunkId rest)
      then have "requestQueue ?s1 = chunkId # rest" by (simp add: f1)
      with inv1 obtain r1 where r1: "map_of (chunks ?s1) chunkId = Some r1"
        "r1 < length (heap ?s1)"
        by (rule queue_head_facts)
      then show ?thesis
        using Cons processQueue_finally_starts_next [OF inv1 _ r1(1), of rest i] f1
        by (simp add: settled)
    qed
    have il: "isl (Inl e :: error + ChunkManager)" by simp
    show ?thesis
      unfolding Let_def Inl sum.case using il st ot f1(1-3) q by blast
  next
    case (Inr s')
    let ?s2 = "s'\<lparr>suspended := (suspended s')[i := (r, AwaitUpload)]\<rparr>"
    note f = processQueue_try_fields [OF Inr]
    obtain chunkData where raw: "rawData = Bytes chunkData"
      using Inr by (cases rawData) (simp_all add: processQueue_try_def)
    obtain w h pixels where p: "parseChunkData chunkData = Inr (w, h, pixels)"
      using Inr raw by (cases "parseChunkData chunkData") (auto simp: processQueue_try_Bytes)
    have s': "s' = uploadChunkToGPU g r
        (?s\<lparr>heap := (heap ?s)[r := (heap ?s ! r)\<lparr>width := w, height := h,
              data := Some pixels, status := IN_CPU, lastAccessed := clock ?s\<rparr>]\<rparr>)"
      using Inr raw p by (simp add: processQueue_try_Bytes)
    have st: "status (heap s' ! r) = ERROR"
      if "gl ?s \<and> (g = CreateTextureNull \<or> g = GlCallThrows
                           \<or> g = CallbackThrows \<and> onChunkReady ?s)"
      using r that unfolding s' by (auto simp: uploadChunkToGPU_same)
    have nc: "status (heap s' ! r) = IN_CPU \<and> texture (heap s' ! r) = texture (heap ?s ! r)
        \<and> uploads s' = uploads ?s"
      if "\<not> gl ?s"
      using r that unfolding s' by (simp add: uploadChunkToGPU_def)
    have ot: "\<forall>r'. r' \<noteq> r \<longrightarrow> heap s' ! r' = heap ?s ! r'"
      unfolding s' by (simp add: uploadChunkToGPU_other)
    have is2: "invokeSettled i rawData g ?s = ?s2"
      using en fs Inr by (simp add: invokeSettled_def)
    have inv2: "invariant ?s2"
      using invokeSettled_invariant [OF inv, of i rawData g] is2 by simp
    have settled: "uploadAwaited i (invokeSettled i rawData g ?s) = processQueue_finally i ?s2"
      using assms(1) by (simp add: is2 uploadAwaited_def f)
    have oth: "take i (suspended ?s2) @ drop (Suc i) (suspended ?s2) = ?others"
      by (simp add: f)
    have q: "(case requestQueue ?s of
                [] \<Rightarrow> uploadAwaited i (invokeSettled i rawData g ?s)
                        = s'\<lparr>activeRequests := activeRequests ?s - 1, suspended := ?others\<rparr>
              | chunkId # rest \<Rightarrow>
                  (\<exists>r1. map_of (chunks ?s) chunkId = Some r1 \<and> r1 < length (heap ?s)
                      \<and> uploadAwaited i (invokeSettled i rawData g ?s)
                          = s'\<lparr>heap := (heap s')[r1 := (heap s' ! r1)\<lparr>status := REQUESTING\<rparr>],
                                requestQueue := rest,
                                suspended := ?others @ [(r1, AwaitInvoke)]\<rparr>))"
    proof (cases "requestQueue ?s")
      case Nil
      then show ?thesis
        using processQueue_finally_empty_queue [OF inv2, of i] oth f by (simp add: settled)
    next
      case (Cons chunkId rest)
      then have "requestQueue ?s2 = chunkId # rest" by (simp add: f)
      with inv2 obtain r1 where r1: "map_of (chunks ?s2) chunkId = Some r1"
        "r1 < length (heap ?s2)"
        by (rule queue_head_facts)
      then show ?thesis
        using Cons processQueue_finally_starts_next [OF inv2 _ r1(1), of rest i] oth f
        by (simp add: settled)
    qed
    have ir: "\<not> isl (Inr s' :: error + ChunkManager)" by simp
    show ?thesis
      unfolding Let_def Inr sum.case using ir st nc ot f(1-3) q by blast
  qed
qed

theorem failure_releases_slot_witness:
  "0 < length (suspended (run run_full_slots))
   \<and> suspended (run run_full_slots) ! 0 = (0, AwaitInvoke)
   \<and> isl (processQueue_try Rejected GlOk 0 (run run_full_slots))
   \<and> requestQueue (run run_full_slots) = [''1_1'']
   \<and> map_of (chunks (run run_full_slots)) ''1_1'' = Some 3
   \<and> status (heap (processQueue_catch 0 (run run_full_slots)) ! 0) = ERROR
   \<and> invokeSettled 0 Rejected GlOk (run run_full_slots) =
       (processQueue_catch 0 (run run_full_slots))
         \<lparr>heap := (heap (processQueue_catch 0 (run run_full_slots)))
                    [3 := (heap (processQueue_catch 0 (run run_full_slots)) ! 3)
                            \<lparr>status := REQUESTING\<rparr>],
          requestQueue := [],
          suspended := [(1, AwaitInvoke), (2, AwaitInvoke), (3, AwaitInvoke)]\<rparr>
   \<and> 0 < length (suspended (run run_one_request))
   \<and> suspended (run run_one_request) ! 0 = (0, AwaitInvoke)
   \<and> gl (run run_one_request)
   \<and> status (heap (case processQueue_try (Bytes blob_1x1) CreateTextureNull 0
                              (run run_one_request) of
                       Inl e \<Rightarrow> processQueue_catch 0 (run run_one_request)
                     | Inr s' \<Rightarrow> s') ! 0) = ERROR
   \<and> 0 < length (suspended (run run_no_context_request))
   \<and> suspended (run run_no_context_request) ! 0 = (0, AwaitInvoke)
   \<and> \<not> gl (run run_no_context_request)
   \<and> \<not> isl (processQueue_try (Bytes blob_1x1) GlOk 0 (run run_no_context_request))
   \<and> status (heap (case processQueue_try (Bytes blob_1x1) GlOk 0
                              (run run_no_context_request) of
                       Inl e \<Rightarrow> processQueue_catch 0 (run run_no_context_request)
                     | Inr s' \<Rightarrow> s') ! 0) = IN_CPU"
proof -
  have a1: "0 < length (suspended (run run_one_request))"
    and a2: "suspended (run run_one_request) ! 0 = (0, AwaitInvoke)"
    and a3: "gl (run run_one_request)"
    by (simp_all add: run_one_request_state)
  from failure_releases_slot [OF a1 a2, of "Bytes blob_1x1" CreateTextureNull] a3
  have a: "status (heap (case processQueue_try (Bytes blob_1x1) CreateTextureNull 0
                              (run run_one_request) of
                       Inl e \<Rightarrow> processQueue_catch 0 (run run_one_request)
                     | Inr s' \<Rightarrow> s') ! 0) = ERROR"
    unfolding Let_def by blast
  have b1: "0 < length (suspended (run run_no_context_request))"
    and b2: "suspended (run run_no_context_request) ! 0 = (0, AwaitInvoke)"
    and b3: "\<not> gl (run run_no_context_request)"
    by (simp_all add: run_no_context_request_def run_eval)
  have b4: "\<not> isl (processQueue_try (Bytes blob_1x1) GlOk 0 (run run_no_context_request))"
    by (simp add: processQueue_try_Bytes parseChunkData_eq be_u32_def blob_1x1_def)
  from failure_releases_slot [OF b1 b2, of "Bytes blob_1x1" GlOk] b3 b4
  have b: "status (heap (case processQueue_try (Bytes blob_1x1) GlOk 0
                              (run run_no_context_request) of
                       Inl e \<Rightarrow> processQueue_catch 0 (run run_no_context_request)
                     | Inr s' \<Rightarrow> s') ! 0) = IN_CPU"
    unfolding Let_def by blast
  have 1: "0 < length (suspended (run run_full_slots))"
    and 2: "suspended (run run_full_slots) ! 0 = (0, AwaitInvoke)"
    and 4: "requestQueue (run run_full_slots) = [''1_1'']"
    and 5: "map_of (chunks (run run_full_slots)) ''1_1'' = Some 3"
    and 6: "take 0 (suspended (run run_full_slots)) @ drop (Suc 0) (suspended (run run_full_slots))
            = [(1, AwaitInvoke), (2, AwaitInvoke)]"
    by (simp_all add: run_full_slots_state)
  have 3: "isl (processQueue_try Rejected GlOk 0 (run run_full_slots))"
    by (simp add: processQueue_try_def)
  from failure_releases_slot [OF 1 2, of Rejected GlOk] 1 2 3 4 5 6
  have c: "0 < length (suspended (run run_full_slots))
   \<and> suspended (run run_full_slots) ! 0 = (0, AwaitInvoke)
   \<and> isl (processQueue_try Rejected GlOk 0 (run run_full_slots))
   \<and> requestQueue (run run_full_slots) = [''1_1'']
   \<and> map_of (chunks (run run_full_slots)) ''1_1'' = Some 3
   \<and> status (heap (processQueue_catch 0 (run run_full_slots)) ! 0) = ERROR
   \<and> invokeSettled 0 Rejected GlOk (run run_full_slots) =
       (processQueue_catch 0 (run run_full_slots))
         \<lparr>heap := (heap (processQueue_catch 0 (run run_full_slots)))
                    [3 := (heap (processQueue_catch 0 (run run_full_slots)) ! 3)
                            \<lparr>status := REQUESTING\<rparr>],
          requestQueue := [],
          suspended := [(1, AwaitInvoke), (2, AwaitInvoke), (3, AwaitInvoke)]\<rparr>"
    by (auto simp: Let_def processQueue_try_def)
  from c a a1 a2 a3 b b1 b2 b3 b4 show ?thesis by blast
qed

subsection \<open>Uploads are owed to requests\<close>

lemma filter_cong_length:
  "(\<And>x. x \<in> set xs \<Longrightarrow> P x = Q x) \<Longrightarrow> length (filter P xs) = length (filter Q xs)"
  by (induction xs) auto

text \<open>A state whose heap has the same ids at every reference in use owes the same.\<close>

lemma same_ids_uploads_of:
  assumes "uploads s' = uploads s"
    and "\<And>u. u \<in> set (uploads s) \<Longrightarrow> chunk_id (heap s' ! fst u) = chunk_id (heap s ! fst u)"
  shows "uploads_of k s' = uploads_of k s"
  unfolding uploads_of_def assms(1)
  by (rule filter_cong_length) (simp add: assms(2))

lemma same_ids_fetching_of:
  assumes "suspended s' = suspended s"
    and "\<And>p. p \<in> set (suspended s) \<Longrightarrow> chunk_id (heap s' ! fst p) = chunk_id (heap s ! fst p)"
  shows "fetching_of k s' = fetching_of k s"
  unfolding fetching_of_def assms(1)
  by (rule filter_cong_length) (simp add: assms(2))

lemma chunk_id_update:
  assumes "\<And>c. chunk_id (f c) = chunk_id c"
  shows "chunk_id (xs[r := f (xs ! r)] ! r') = chunk_id (xs ! r')"
  by (simp add: nth_update_same assms)

lemma chunk_id_nth_update:
  "chunk_id v = chunk_id (xs ! r) \<Longrightarrow> chunk_id (xs[r := v] ! r') = chunk_id (xs ! r')"
  by (cases "r < length xs"; cases "r' = r") (simp_all add: list_update_beyond)

lemma chunk_id_ops [simp]:
  "chunk_id (updateStatus now st c) = chunk_id c"
  "chunk_id (setData now d c) = chunk_id c"
  "chunk_id (setTexture now t c) = chunk_id c"
  "chunk_id (fst (ImageChunk_cleanup c)) = chunk_id c"
  by (simp_all add: updateStatus_def setData_def setTexture_def ImageChunk_cleanup_def Let_def)

lemma ids_ok_update_chunk:
  assumes "ids_ok s" and "\<And>c. chunk_id (f c) = chunk_id c"
  shows "ids_ok (update_chunk r f s)"
  using assms(1) unfolding ids_ok_def by (simp add: chunk_id_update [OF assms(2)])

lemma owed_update_chunk:
  assumes "\<And>c. chunk_id (f c) = chunk_id c"
  shows "uploads_of k (update_chunk r f s) = uploads_of k s"
    and "fetching_of k (update_chunk r f s) = fetching_of k s"
  by (simp_all add: uploads_of_def fetching_of_def chunk_id_update [OF assms])


lemma processQueue_ids_ok: "ids_ok s \<Longrightarrow> ids_ok (processQueue s)"
  unfolding processQueue_def ids_ok_def
  by (simp add: Let_def chunk_id_update split: list.splits option.splits)

lemma processQueue_owed:
  assumes "ids_ok s"
  shows "owed k (processQueue s) \<le> owed k s"
proof (cases "activeRequests s \<ge> maxConcurrentRequests")
  case True
  then show ?thesis by (simp add: processQueue_def)
next
  case False
  show ?thesis
  proof (cases "requestQueue s")
    case Nil
    then show ?thesis by (simp add: processQueue_def)
  next
    case (Cons chunkId rest)
    show ?thesis
    proof (cases "chunkId = [] \<or> map_of (chunks s) chunkId = None")
      case True
      then show ?thesis
        using False Cons
        by (auto simp: processQueue_def Let_def owed_def uploads_of_def fetching_of_def)
    next
      case F: False
      then obtain r where r: "map_of (chunks s) chunkId = Some r" by auto
      then have "(chunkId, r) \<in> set (chunks s)" by (rule map_of_SomeD)
      then have id: "chunk_id (heap s ! r) = chunkId"
        using assms by (auto simp: ids_ok_def)
      show ?thesis
        using False Cons F r id
        by (simp add: processQueue_def Let_def owed_def uploads_of_def fetching_of_def
            chunk_id_update)
    qed
  qed
qed

lemma requestChunk_ids_ok: "ids_ok s \<Longrightarrow> ids_ok (requestChunk chunkId s)"
proof -
  assume a: "ids_ok s"
  then have "ids_ok (s\<lparr>requestQueue := requestQueue s @ [chunkId]\<rparr>)"
    by (simp add: ids_ok_def)
  then show ?thesis
    using a by (simp add: requestChunk_def Let_def processQueue_ids_ok split: option.splits)
qed

lemma requestChunk_owed:
  assumes "ids_ok s"
  shows "owed k (requestChunk chunkId s) \<le> owed k s + (if chunkId = k then 1 else 0)"
proof -
  let ?s = "s\<lparr>requestQueue := requestQueue s @ [chunkId]\<rparr>"
  have i: "ids_ok ?s" using assms by (simp add: ids_ok_def)
  have "owed k ?s = owed k s + (if chunkId = k then 1 else 0)"
    by (simp add: owed_def uploads_of_def fetching_of_def)
  then have le: "owed k (processQueue ?s) \<le> owed k s + (if chunkId = k then 1 else 0)"
    using processQueue_owed [OF i, of k] by simp
  have "requestChunk chunkId s = s \<or> requestChunk chunkId s = processQueue ?s"
    by (simp add: requestChunk_def Let_def split: option.splits)
  then show ?thesis
  proof
    assume "requestChunk chunkId s = s"
    then show ?thesis by simp
  next
    assume "requestChunk chunkId s = processQueue ?s"
    then show ?thesis using le by simp
  qed
qed


text \<open>The end of an activation.\<close>

lemma processQueue_finally_ids_ok: "ids_ok s \<Longrightarrow> ids_ok (processQueue_finally i s)"
  unfolding processQueue_finally_def
  by (rule processQueue_ids_ok) (simp add: ids_ok_def)

lemma length_filter_remove_nth:
  "length (filter P (take i xs @ drop (Suc i) xs)) \<le> length (filter P xs)"
proof -
  have "length (filter P xs) = length (filter P (take i xs)) + length (filter P (drop i xs))"
    by (metis append_take_drop_id filter_append length_append)
  moreover have "length (filter P (drop (Suc i) xs)) \<le> length (filter P (drop i xs))"
    by (cases "i < length xs") (simp_all add: Cons_nth_drop_Suc [symmetric])
  ultimately show ?thesis by simp
qed

lemma length_filter_remove_nth_true:
  assumes "i < length xs" and "P (xs ! i)"
  shows "Suc (length (filter P (take i xs @ drop (Suc i) xs))) = length (filter P xs)"
proof -
  have "xs = take i xs @ xs ! i # drop (Suc i) xs"
    using assms(1) by (simp add: id_take_nth_drop)
  then have "length (filter P xs) = length (filter P (take i xs @ xs ! i # drop (Suc i) xs))"
    by simp
  then show ?thesis using assms(2) by simp
qed

lemma length_filter_remove_nth_false:
  assumes "i < length xs" and "\<not> P (xs ! i)"
  shows "length (filter P (take i xs @ drop (Suc i) xs)) = length (filter P xs)"
proof -
  have "xs = take i xs @ xs ! i # drop (Suc i) xs"
    using assms(1) by (simp add: id_take_nth_drop)
  then have "length (filter P xs) = length (filter P (take i xs @ xs ! i # drop (Suc i) xs))"
    by simp
  then show ?thesis using assms(2) by simp
qed

lemma processQueue_finally_owed:
  assumes "ids_ok s"
  shows "owed k (processQueue_finally i s) \<le> owed k s"
proof -
  let ?s = "s\<lparr>activeRequests := activeRequests s - 1,
      suspended := take i (suspended s) @ drop (Suc i) (suspended s)\<rparr>"
  have "ids_ok ?s" using assms by (simp add: ids_ok_def)
  then have "owed k (processQueue ?s) \<le> owed k ?s" by (rule processQueue_owed)
  moreover have "owed k ?s \<le> owed k s"
    using length_filter_remove_nth
      [of "\<lambda>p. snd p = AwaitInvoke \<and> chunk_id (heap s ! fst p) = k" i "suspended s"]
    by (simp add: owed_def uploads_of_def fetching_of_def)
  ultimately show ?thesis by (simp add: processQueue_finally_def)
qed


text \<open>The resumption with the reply: a fetch in flight is used up, and pays for one upload at most.\<close>

lemma uploadChunkToGPU_uploads:
  "uploads (uploadChunkToGPU g r s) = uploads s \<or> uploads (uploadChunkToGPU g r s) = uploads s @ [(r, textures_created s)]"
  by (simp add: uploadChunkToGPU_def Let_def split: gl_behaviour.splits)

lemma uploadChunkToGPU_chunk_id:
  "chunk_id (heap (uploadChunkToGPU g r s) ! r') = chunk_id (heap s ! r')"
  by (simp add: uploadChunkToGPU_def Let_def chunk_id_nth_update setTexture_def
      split: gl_behaviour.splits)

lemma processQueue_try_chunk_id:
  assumes "processQueue_try rawData g r s = Inr s'"
  shows "chunk_id (heap s' ! r') = chunk_id (heap s ! r')"
    and "uploads s' = uploads s \<or> uploads s' = uploads s @ [(r, textures_created s)]"
proof -
  obtain chunkData where raw: "rawData = Bytes chunkData"
    using assms by (cases rawData) (simp_all add: processQueue_try_def)
  obtain w h pixels where p: "parseChunkData chunkData = Inr (w, h, pixels)"
    using assms raw by (cases "parseChunkData chunkData") (auto simp: processQueue_try_Bytes)
  let ?s0 = "s\<lparr>heap := (heap s)[r := (heap s ! r)\<lparr>width := w, height := h,
              data := Some pixels, status := IN_CPU, lastAccessed := clock s\<rparr>]\<rparr>"
  have s': "s' = uploadChunkToGPU g r ?s0"
    using assms raw p by (simp add: processQueue_try_Bytes)
  have "chunk_id (heap ?s0 ! r') = chunk_id (heap s ! r')"
    using chunk_id_update [of "\<lambda>c. c\<lparr>width := w, height := h,
              data := Some pixels, status := IN_CPU, lastAccessed := clock s\<rparr>" "heap s" r r']
    by simp
  then show "chunk_id (heap s' ! r') = chunk_id (heap s ! r')"
    unfolding s' by (simp add: uploadChunkToGPU_chunk_id)
  show "uploads s' = uploads s \<or> uploads s' = uploads s @ [(r, textures_created s)]"
    unfolding s' using uploadChunkToGPU_uploads [of g r ?s0] by simp
qed

lemma invokeSettled_ids_ok:
  assumes "ids_ok s" and "refs_ok s"
  shows "ids_ok (invokeSettled i rawData g s)"
proof (cases "i < length (suspended s) \<and> snd (suspended s ! i) = AwaitInvoke")
  case False
  then show ?thesis using assms by (auto simp: invokeSettled_def)
next
  case True
  let ?r = "fst (suspended s ! i)"
  have r: "?r < length (heap s)"
    using assms(2) True unfolding refs_ok_def by simp
  show ?thesis
  proof (cases "processQueue_try rawData g ?r s")
    case (Inl e)
    have "ids_ok (processQueue_catch ?r s)"
      unfolding processQueue_catch_def by (rule ids_ok_update_chunk [OF assms(1)]) simp
    then show ?thesis
      using True Inl by (simp add: invokeSettled_def processQueue_finally_ids_ok)
  next
    case (Inr s')
    note f = processQueue_try_fields [OF Inr]
    note c = processQueue_try_chunk_id [OF Inr]
    have "\<forall>u \<in> set (uploads s'). fst u < length (heap s')"
      using c(2) assms(1) r by (auto simp: ids_ok_def f)
    then have "ids_ok (s'\<lparr>suspended := (suspended s')[i := (?r, AwaitUpload)]\<rparr>)"
      using assms(1) by (simp add: ids_ok_def f c(1))
    then show ?thesis using True Inr by (simp add: invokeSettled_def)
  qed
qed

lemma invokeSettled_owed:
  assumes "ids_ok s"
  shows "owed k (invokeSettled i rawData g s) \<le> owed k s"
proof (cases "i < length (suspended s) \<and> snd (suspended s ! i) = AwaitInvoke")
  case False
  then show ?thesis by (auto simp: invokeSettled_def)
next
  case True
  let ?r = "fst (suspended s ! i)"
  let ?P = "\<lambda>p. snd p = AwaitInvoke \<and> chunk_id (heap s ! fst p) = k"
  show ?thesis
  proof (cases "processQueue_try rawData g ?r s")
    case (Inl e)
    have i1: "ids_ok (processQueue_catch ?r s)"
      unfolding processQueue_catch_def by (rule ids_ok_update_chunk [OF assms]) simp
    have "owed k (processQueue_catch ?r s) = owed k s"
      by (simp add: processQueue_catch_def owed_def owed_update_chunk)
    then show ?thesis
      using True Inl processQueue_finally_owed [OF i1, of k i]
      by (simp add: invokeSettled_def)
  next
    case (Inr s')
    note f = processQueue_try_fields [OF Inr]
    note c = processQueue_try_chunk_id [OF Inr]
    let ?s2 = "s'\<lparr>suspended := (suspended s')[i := (?r, AwaitUpload)]\<rparr>"
    have up: "uploads_of k ?s2 \<le> uploads_of k s + (if chunk_id (heap s ! ?r) = k then 1 else 0)"
      using c(2) by (auto simp: uploads_of_def c(1))
    have "(suspended s)[i := (?r, AwaitUpload)]
          = take i (suspended s) @ (?r, AwaitUpload) # drop (Suc i) (suspended s)"
      using True by (simp add: upd_conv_take_nth_drop)
    then have "fetching_of k ?s2 = length (filter ?P (take i (suspended s) @ drop (Suc i) (suspended s)))"
      by (simp add: fetching_of_def f c(1))
    moreover have "?P (suspended s ! i) \<longleftrightarrow> chunk_id (heap s ! ?r) = k"
      using True by simp
    ultimately have fe: "fetching_of k ?s2 + (if chunk_id (heap s ! ?r) = k then 1 else 0)
        = fetching_of k s"
      using length_filter_remove_nth_true [of i "suspended s" ?P] True
        length_filter_remove_nth_false [of i "suspended s" ?P]
      by (auto simp: fetching_of_def)
    have "owed k ?s2 \<le> owed k s"
      using up fe by (simp add: owed_def f)
    then show ?thesis using True Inr by (simp add: invokeSettled_def)
  qed
qed


lemma uploadAwaited_owed:
  "ids_ok s \<Longrightarrow> ids_ok (uploadAwaited i s) \<and> owed k (uploadAwaited i s) \<le> owed k s"
  by (simp add: uploadAwaited_def processQueue_finally_ids_ok processQueue_finally_owed)

text \<open>New objects and \<open>cleanup\<close> leave what is owed as it is, or less.\<close>

lemma initializeChunks_owed:
  assumes "refs_ok s" and "ids_ok s"
  shows "ids_ok (initializeChunks infos s) \<and> owed k (initializeChunks infos s) = owed k s"
  using assms
proof (induction infos arbitrary: s)
  case Nil
  then show ?case by simp
next
  case (Cons ci infos)
  let ?c = "new_ImageChunk (clock s) ci"
  let ?s = "s\<lparr>heap := heap s @ [?c],
              chunks := AList.update (chunk_id ?c) (length (heap s)) (chunks s)\<rparr>"
  have step: "initializeChunks (ci # infos) s = initializeChunks infos ?s"
    by (simp add: Let_def)
  have r: "refs_ok ?s"
    using initializeChunks_refs_ok [OF Cons.prems(1), of "[ci]"] by (simp add: Let_def)
  have old: "(heap s @ [?c]) ! n = heap s ! n" if "n < length (heap s)" for n
    using that by (simp add: nth_append)
  have i: "ids_ok ?s"
    unfolding ids_ok_def
  proof (intro conjI ballI)
    fix u assume "u \<in> set (uploads ?s)"
    then show "fst u < length (heap ?s)"
      using Cons.prems(2) by (auto simp: ids_ok_def less_Suc_eq)
  next
    fix p assume "p \<in> set (chunks ?s)"
    then have "p = (chunk_id ?c, length (heap s)) \<or> p \<in> set (chunks s)"
      using set_alist_update [of "chunk_id ?c" "length (heap s)" "chunks s"] by auto
    then show "chunk_id (heap ?s ! snd p) = fst p"
    proof
      assume "p = (chunk_id ?c, length (heap s))"
      then show ?thesis by simp
    next
      assume p: "p \<in> set (chunks s)"
      then have "snd p < length (heap s)" using Cons.prems(1) by (simp add: refs_ok_def)
      then show ?thesis using p Cons.prems(2) by (simp add: old ids_ok_def)
    qed
  qed
  have u: "uploads_of k ?s = uploads_of k s"
    by (rule same_ids_uploads_of) (use Cons.prems(2) in \<open>simp_all add: old ids_ok_def\<close>)
  have f: "fetching_of k ?s = fetching_of k s"
    by (rule same_ids_fetching_of) (use Cons.prems(1) in \<open>simp_all add: old refs_ok_def\<close>)
  have "owed k ?s = owed k s" using u f by (simp add: owed_def)
  then show ?case using Cons.IH [OF r i] step by simp
qed

lemma fold_cleanup_chunk_ids:
  "uploads (fold cleanup_chunk rs s) = uploads s
   \<and> suspended (fold cleanup_chunk rs s) = suspended s
   \<and> length (heap (fold cleanup_chunk rs s)) = length (heap s)
   \<and> chunk_id (heap (fold cleanup_chunk rs s) ! r') = chunk_id (heap s ! r')"
proof (induction rs arbitrary: s)
  case Nil
  show ?case by simp
next
  case (Cons a rs)
  have "uploads (cleanup_chunk a s) = uploads s"
    "chunk_id (heap (cleanup_chunk a s) ! r') = chunk_id (heap s ! r')"
    by (simp_all add: cleanup_chunk_def split_beta chunk_id_nth_update)
  then show ?case using Cons [of "cleanup_chunk a s"] by simp
qed

lemma cleanup_owed:
  assumes "ids_ok s"
  shows "ids_ok (cleanup s) \<and> owed k (cleanup s) \<le> owed k s"
proof -
  let ?s = "if gl s then fold cleanup_chunk (map snd (chunks s)) s else s"
  have same: "uploads ?s = uploads s" "suspended ?s = suspended s"
    "length (heap ?s) = length (heap s)"
    "\<And>r'. chunk_id (heap ?s ! r') = chunk_id (heap s ! r')"
    using fold_cleanup_chunk_ids [of "map snd (chunks s)" s] by simp_all
  have "ids_ok (cleanup s)"
    using assms same(1,3) by (simp add: cleanup_def Let_def ids_ok_def)
  moreover have "uploads_of k (cleanup s) = uploads_of k s"
    by (rule same_ids_uploads_of) (simp_all add: cleanup_def Let_def same)
  moreover have "fetching_of k (cleanup s) = fetching_of k s"
    by (rule same_ids_fetching_of) (simp_all add: cleanup_def Let_def same)
  moreover have "requestQueue (cleanup s) = []" by (simp add: cleanup_def Let_def)
  ultimately show ?thesis by (simp add: owed_def)
qed

lemma step_owed:
  assumes "refs_ok s" and "ids_ok s"
  shows "ids_ok (step e s)
       \<and> owed k (step e s) \<le> owed k s + (if e = RequestChunk k then 1 else 0)"
proof (cases e)
  case SetWebGLContext
  then show ?thesis using assms(2) by (simp add: ids_ok_def owed_def uploads_of_def fetching_of_def)
next
  case SetOnChunkReady
  then show ?thesis using assms(2) by (simp add: ids_ok_def owed_def uploads_of_def fetching_of_def)
next
  case (InitializeChunks infos)
  then show ?thesis using initializeChunks_owed [OF assms, of infos k] by simp
next
  case (RequestChunk chunkId)
  then show ?thesis
    using requestChunk_ids_ok [OF assms(2), of chunkId] requestChunk_owed [OF assms(2), of k chunkId]
    by auto
next
  case (InvokeSettled i rawData g)
  then show ?thesis
    using invokeSettled_ids_ok [OF assms(2,1), of i rawData g]
      invokeSettled_owed [OF assms(2), of k i rawData g]
    by simp
next
  case (UploadAwaited i)
  then show ?thesis using uploadAwaited_owed [OF assms(2), of i k] by simp
next
  case Cleanup
  then show ?thesis using cleanup_owed [OF assms(2), of k] by simp
next
  case (Tick n)
  then show ?thesis using assms(2) by (simp add: ids_ok_def owed_def uploads_of_def fetching_of_def)
qed

lemma run_owed: "ids_ok (run es) \<and> owed k (run es) \<le> count_list es (RequestChunk k)"
proof (induction es rule: rev_induct)
  case Nil
  show ?case
    by (simp add: run_def new_ChunkManager_def ids_ok_def owed_def uploads_of_def fetching_of_def)
next
  case (snoc e es)
  have r: "refs_ok (run es)" using run_invariant [of es] by (simp add: invariant_def)
  from snoc have i: "ids_ok (run es)" and o: "owed k (run es) \<le> count_list es (RequestChunk k)"
    by simp_all
  have "count_list (es @ [e]) (RequestChunk k)
      = count_list es (RequestChunk k) + (if e = RequestChunk k then 1 else 0)"
    by simp
  then show ?case
    using step_owed [OF r i, of e k] o unfolding run_snoc by (simp split: if_splits)
qed

text \<open>
  A chunk id is uploaded at most as often as \<open>requestChunk\<close> was called for it: every upload
  uses up a request of its own. In a run that requests every id at most once, as the
  viewer does with the disjoint batches, every chunk is uploaded at most once.
\<close>

lemma uploads_bounded_by_requests: "uploads_of k (run es) \<le> count_list es (RequestChunk k)"
  using run_owed [of es k] by (simp add: owed_def)

end
